theory Spec2Isabelle
  imports Main "HOL-Library.Sublist"
begin

section \<open>Strings\<close>

text \<open>
  A JavaScript string is a sequence of UTF-16 code units; \<open>s.length\<close> and \<open>s[i]\<close> count and
  read code units. The model uses \<^typ>\<open>string\<close>, one \<^typ>\<open>char\<close> per code unit, for the code
  units below 256. \<open>is_space\<close> is the class \<open>\s\<close> of regular expressions on that range (tab,
  line feed, vertical tab, form feed, carriage return, space, no-break space); it is also the
  set of characters that \<open>String.prototype.trim\<close> removes.
\<close>

definition is_space :: "char \<Rightarrow> bool" where
  "is_space c \<longleftrightarrow>
     c \<in> set [CHR 0x09, CHR 0x0A, CHR 0x0B, CHR 0x0C, CHR 0x0D, CHR 0x20, CHR 0xA0]"

text \<open>\<open>s.trim()\<close>\<close>

definition trim :: "string \<Rightarrow> string" where
  "trim s = rev (dropWhile is_space (rev (dropWhile is_space s)))"

text \<open>\<open>s.endsWith(t)\<close>: the last \<open>t.length\<close> code units of \<open>s\<close> are \<open>t\<close>.\<close>

definition endsWith :: "string \<Rightarrow> string \<Rightarrow> bool" where
  "endsWith s t \<longleftrightarrow> length t \<le> length s \<and> drop (length s - length t) s = t"

text \<open>
  \<open>s.slice(0, -n)\<close> for a length \<open>n\<close>: the end index \<open>-n\<close> counts from the end of \<open>s\<close> and is
  clamped at 0; for \<open>n = 0\<close> it is \<open>-0 = 0\<close>, so the slice is empty.
\<close>

definition slice_to_minus :: "string \<Rightarrow> nat \<Rightarrow> string" where
  "slice_to_minus s n = (if n = 0 then [] else take (length s - n) s)"

text \<open>
  \<open>s.split(sep)\<close> for a string separator: the segments between the occurrences of \<open>sep\<close>,
  found from the left without overlap. An empty separator splits into single code units.
\<close>

fun split_on :: "string \<Rightarrow> string \<Rightarrow> string \<Rightarrow> string list" where
  "split_on sep acc [] = [acc]"
| "split_on sep acc (c # cs) =
     (if prefix sep (c # cs) then acc # split_on sep [] (drop (length sep - 1) cs)
      else split_on sep (acc @ [c]) cs)"

definition split :: "string \<Rightarrow> string \<Rightarrow> string list" where
  "split s sep = (if sep = [] then map (\<lambda>c. [c]) s else split_on sep [] s)"

text \<open>\<open>s.split(/\s+/)\<close>: the segments between the maximal runs of whitespace.\<close>

function split_ws :: "string \<Rightarrow> string \<Rightarrow> string list" where
  "split_ws acc [] = [acc]"
| "split_ws acc (c # cs) =
     (if is_space c then acc # split_ws [] (dropWhile is_space cs)
      else split_ws (acc @ [c]) cs)"
  by pat_completeness auto
termination
  by (relation "measure (\<lambda>(acc, s). length s)")
     (auto simp: length_dropWhile_le less_Suc_eq_le)

section \<open>Errors\<close>

text \<open>
  Every \<open>throw\<close> of the source is one constructor; the arguments are the values that the
  source interpolates into the message.
\<close>

datatype error =
    IndexIntoLeaf string
  | UnknownKey string string
  | NotALeaf string
  | DirectiveTooLong
  | TooManyTokens string
  | TooFewTokens string

definition quoted :: "string \<Rightarrow> string" where
  "quoted s = [CHR 0x22] @ s @ [CHR 0x22]"

fun message :: "error \<Rightarrow> string" where
  "message (IndexIntoLeaf valuePath) =
     ''Tried to index into a leaf value in path '' @ quoted valuePath"
| "message (UnknownKey segment valuePath) =
     ''Tried to index with a non-existent key '' @ quoted segment @ '' in path '' @ quoted valuePath"
| "message (NotALeaf valuePath) =
     ''Value path '' @ quoted valuePath @ '' didn't reach a leaf value''"
| "message DirectiveTooLong =
     ''Swap directive path is too long (over 1024 characters!). The directive end token is likely missing.''"
| "message (TooManyTokens string') =
     ''Invalid directive template '' @ quoted string' @ '' has too many tokens.''"
| "message (TooFewTokens string') =
     ''Invalid directive template '' @ quoted string' @ '' has too few tokens.''"

section \<open>Swap directive template\<close>

record template =
  start :: string
  separator :: string
  end' :: string

text \<open>
  \<open>SwapDirectiveTemplate.fromString\<close>: the destructuring
  \<open>[start, separator, end, ...rest]\<close> leaves a missing element \<open>undefined\<close>; the test for
  too many tokens comes first.
\<close>

definition fromString :: "string \<Rightarrow> error + template" where
  "fromString string' =
     (case split_ws [] (trim string') of
        start_tok # separator_tok # end_tok # rest \<Rightarrow>
          if length rest > 0 then Inl (TooManyTokens string')
          else Inr \<lparr>start = start_tok, separator = separator_tok, end' = end_tok\<rparr>
      | _ \<Rightarrow> Inl (TooFewTokens string'))"

text \<open>
  For stating what the tokens are: the words of a string, its maximal runs of characters
  that are not whitespace, from left to right.
\<close>

function words_of :: "string \<Rightarrow> string list" where
  "words_of s =
     (case dropWhile is_space s of
        [] \<Rightarrow> []
      | c # cs \<Rightarrow>
          (c # takeWhile (\<lambda>x. \<not> is_space x) cs) # words_of (dropWhile (\<lambda>x. \<not> is_space x) cs))"
  by pat_completeness auto
termination
proof (relation "measure length")
  show "wf (measure length)" by simp
next
  fix s :: string and c cs
  assume "dropWhile is_space s = c # cs"
  then have "length (c # cs) \<le> length s"
    using length_dropWhile_le [of is_space s] by simp
  moreover have "length (dropWhile (\<lambda>x. \<not> is_space x) cs) \<le> length cs"
    by (rule length_dropWhile_le)
  ultimately show "(dropWhile (\<lambda>x. \<not> is_space x) cs, s) \<in> measure length"
    by simp
qed

section \<open>Swap data\<close>

text \<open>
  A \<open>DataNode\<close> is a string (a leaf) or an object whose values are data nodes; the root
  \<open>SwapData\<close> is an object. An object of the tree is given by its own keys and their
  children.
\<close>

datatype dataNode = Leaf string | Node "(string \<times> dataNode) list"

type_synonym swapData = "(string \<times> dataNode) list"

text \<open>
  \<open>value[segment]\<close> reads a property: the object's own one if it has the key, and otherwise
  the one it inherits. The objects of a tree are ordinary objects and inherit from
  \<open>Object.prototype\<close>, which belongs to the JavaScript runtime and not to the repository.
  Its property names are those that ECMAScript (with its Annex B, as Node.js has it) gives
  it. Their values are functions and, for \<open>__proto__\<close>, the prototype object: none is
  \<open>null\<close>, \<open>undefined\<close> or a string.
\<close>

definition objectPrototype :: "string list" where
  "objectPrototype =
     [''constructor'', ''__defineGetter__'', ''__defineSetter__'', ''hasOwnProperty'',
      ''__lookupGetter__'', ''__lookupSetter__'', ''isPrototypeOf'', ''propertyIsEnumerable'',
      ''toString'', ''valueOf'', ''__proto__'', ''toLocaleString'']"

text \<open>
  So the variable \<open>value\<close> of \<open>getValue\<close> holds a node of the tree or a value of the runtime.
  A value of the runtime is named by the property names read to reach it from an object of
  the tree, \<open>constructor\<close> and then \<open>name\<close> for instance. What a read on a value of the
  runtime returns is a parameter of the model, the runtime \<open>R\<close>: for the names read so far
  and the one read now, nothing (\<open>undefined\<close> or \<open>null\<close>), a string, or another value.
  Every read is taken to return; a read that the runtime answers by throwing is outside
  the model.
\<close>

datatype read = Nullish | StringValue string | OtherValue

type_synonym runtime = "string list \<Rightarrow> read"

datatype jsValue = Data dataNode | Builtin "string list"

text \<open>
  \<open>getValue\<close>: the \<open>for\<close> loop over the segments, then the test of the value reached.
\<close>

fun getValue_loop :: "runtime \<Rightarrow> jsValue \<Rightarrow> string \<Rightarrow> string list \<Rightarrow> error + jsValue" where
  "getValue_loop R value' valuePath [] = Inr value'"
| "getValue_loop R value' valuePath (segment # segments) =
     (case value' of
        Data (Leaf _) \<Rightarrow> Inl (IndexIntoLeaf valuePath)
      | Data (Node children) \<Rightarrow>
          (case map_of children segment of
             Some newValue \<Rightarrow> getValue_loop R (Data newValue) valuePath segments
           | None \<Rightarrow>
               if segment \<in> set objectPrototype
               then getValue_loop R (Builtin [segment]) valuePath segments
               else Inl (UnknownKey segment valuePath))
      | Builtin names \<Rightarrow>
          (case R (names @ [segment]) of
             Nullish \<Rightarrow> Inl (UnknownKey segment valuePath)
           | StringValue newValue \<Rightarrow> getValue_loop R (Data (Leaf newValue)) valuePath segments
           | OtherValue \<Rightarrow> getValue_loop R (Builtin (names @ [segment])) valuePath segments))"

definition getValue :: "runtime \<Rightarrow> swapData \<Rightarrow> string \<Rightarrow> string \<Rightarrow> error + string" where
  "getValue R data valuePath sep =
     (case getValue_loop R (Data (Node data)) valuePath (split valuePath sep) of
        Inl e \<Rightarrow> Inl e
      | Inr (Data (Leaf v)) \<Rightarrow> Inr v
      | Inr _ \<Rightarrow> Inl (NotALeaf valuePath))"

section \<open>The scanner\<close>

text \<open>
  A state function is named by a tag. \<open>consumeWhitespaceAndThen(nextState)\<close> builds a
  closure over \<open>nextState\<close>: the tag \<open>WhitespaceConsumer nextState\<close>. The source compares
  state functions by identity (\<open>newState !== this.#nextState\<close>); a whitespace consumer is
  only ever compared with itself (when it returns itself) or with a function of another
  kind, so identity and equality of tags agree.
\<close>

datatype stateFunction =
    LookingForDirective
  | InDirective
  | WhitespaceConsumer stateFunction

text \<open>
  The processing context. \<open>input\<close> holds the part of the current chunk not yet read, the
  source's \<open>input\<close> from \<open>nextIndex\<close> on: reading \<open>input[nextIndex++]\<close> takes its head, and
  yields \<open>undefined\<close> when it is empty. The fields \<open>swapData\<close> and \<open>template\<close> never change
  and are passed as the parameters \<open>D\<close> and \<open>T\<close>, after the runtime \<open>R\<close> in which
  \<open>getValue\<close> reads.
\<close>

record processingContext =
  input :: string
  output' :: string
  stateBuffer :: string

text \<open>\<open>whitespaceConsumerState\<close>, the function that \<open>consumeWhitespaceAndThen\<close> returns.\<close>

definition whitespaceConsumerState ::
    "stateFunction \<Rightarrow> processingContext \<Rightarrow> stateFunction \<times> processingContext" where
  "whitespaceConsumerState nextState ctx =
     (let rest = dropWhile is_space (input ctx) in
      if rest = [] then (WhitespaceConsumer nextState, ctx\<lparr>input := rest\<rparr>)
      else (nextState, ctx\<lparr>input := rest\<rparr>))"

text \<open>\<open>lookingForDirectiveState\<close>\<close>

function lookingForDirectiveState :: "template \<Rightarrow> processingContext \<Rightarrow> stateFunction \<times> processingContext" where
  "lookingForDirectiveState T ctx =
     (if length (stateBuffer ctx) < length (start T) then
        (case input ctx of
           [] \<Rightarrow> (LookingForDirective, ctx)
         | last' # rest \<Rightarrow>
             if last' = start T ! length (stateBuffer ctx) then
               lookingForDirectiveState T
                 (ctx\<lparr>input := rest, stateBuffer := stateBuffer ctx @ [last']\<rparr>)
             else
               lookingForDirectiveState T
                 (ctx\<lparr>input := rest, output' := output' ctx @ stateBuffer ctx @ [last'],
                     stateBuffer := []\<rparr>))
      else (WhitespaceConsumer InDirective, ctx))"
  by pat_completeness auto
termination
  by (relation "measure (\<lambda>(T, ctx). length (input ctx))") auto

text \<open>
  \<open>inDirectiveState\<close>: the \<open>while\<close> loop, entered after the first code unit has been
  appended to the buffer, then the function itself.
\<close>

function inDirective_loop ::
    "runtime \<Rightarrow> template \<Rightarrow> swapData \<Rightarrow> processingContext \<Rightarrow> error + stateFunction \<times> processingContext" where
  "inDirective_loop R T D ctx =
     (if \<not> endsWith (stateBuffer ctx) (end' T) then
        if length (stateBuffer ctx) > 1024 then Inl DirectiveTooLong
        else
          (case input ctx of
             [] \<Rightarrow> Inr (InDirective, ctx)
           | last' # rest \<Rightarrow>
               inDirective_loop R T D (ctx\<lparr>input := rest, stateBuffer := stateBuffer ctx @ [last']\<rparr>))
      else
        (case getValue R D (trim (slice_to_minus (stateBuffer ctx) (length (end' T))))
                (separator T) of
           Inl e \<Rightarrow> Inl e
         | Inr value' \<Rightarrow> Inr (LookingForDirective, ctx\<lparr>output' := output' ctx @ value'\<rparr>)))"
  by pat_completeness auto
termination
  by (relation "measure (\<lambda>(R, T, D, ctx). length (input ctx))") auto

definition inDirectiveState ::
    "runtime \<Rightarrow> template \<Rightarrow> swapData \<Rightarrow> processingContext \<Rightarrow> error + stateFunction \<times> processingContext" where
  "inDirectiveState R T D ctx =
     (case input ctx of
        [] \<Rightarrow> Inr (InDirective, ctx)
      | last' # rest \<Rightarrow>
          inDirective_loop R T D (ctx\<lparr>input := rest, stateBuffer := stateBuffer ctx @ [last']\<rparr>))"

text \<open>Calling the state function that a tag names.\<close>

fun call :: "runtime \<Rightarrow> template \<Rightarrow> swapData \<Rightarrow> stateFunction \<Rightarrow> processingContext \<Rightarrow> error + stateFunction \<times> processingContext" where
  "call R T D LookingForDirective ctx = Inr (lookingForDirectiveState T ctx)"
| "call R T D InDirective ctx = inDirectiveState R T D ctx"
| "call R T D (WhitespaceConsumer nextState) ctx = Inr (whitespaceConsumerState nextState ctx)"

text \<open>
  What a call returns: a state function returns itself only when the chunk is used up, and
  otherwise leaves a final part of the input it was given.
\<close>

declare lookingForDirectiveState.simps [simp del]
declare inDirective_loop.simps [simp del]

lemma lookingForDirectiveState_result:
  "lookingForDirectiveState T ctx = (s', ctx') \<Longrightarrow>
     (s' = LookingForDirective \<and> input ctx' = []) \<or>
     (s' = WhitespaceConsumer InDirective \<and> suffix (input ctx') (input ctx))"
proof (induction T ctx rule: lookingForDirectiveState.induct)
  case (1 T ctx)
  show ?case
  proof (cases "length (stateBuffer ctx) < length (start T)")
    case False
    with "1.prems" show ?thesis
      by (simp add: lookingForDirectiveState.simps [of T ctx])
  next
    case True
    show ?thesis
    proof (cases "input ctx")
      case Nil
      with True "1.prems" show ?thesis
        by (simp add: lookingForDirectiveState.simps [of T ctx])
    next
      case (Cons c rest)
      show ?thesis
      proof (cases "c = start T ! length (stateBuffer ctx)")
        case eq: True
        from "1.prems" True Cons eq
        have "lookingForDirectiveState T
                (ctx\<lparr>input := rest, stateBuffer := stateBuffer ctx @ [c]\<rparr>) = (s', ctx')"
          by (simp add: lookingForDirectiveState.simps [of T ctx])
        from "1.IH"(1) [OF True Cons eq this] Cons show ?thesis
          by (auto intro: suffix_ConsI)
      next
        case neq: False
        from "1.prems" True Cons neq
        have "lookingForDirectiveState T
                (ctx\<lparr>input := rest, output' := output' ctx @ stateBuffer ctx @ [c],
                    stateBuffer := []\<rparr>) = (s', ctx')"
          by (simp add: lookingForDirectiveState.simps [of T ctx])
        from "1.IH"(2) [OF True Cons neq this] Cons show ?thesis
          by (auto intro: suffix_ConsI)
      qed
    qed
  qed
qed

lemma inDirective_loop_result:
  "inDirective_loop R T D ctx = Inr (s', ctx') \<Longrightarrow>
     (s' = InDirective \<and> input ctx' = []) \<or>
     (s' = LookingForDirective \<and> suffix (input ctx') (input ctx))"
proof (induction R T D ctx rule: inDirective_loop.induct)
  case (1 R T D ctx)
  show ?case
  proof (cases "endsWith (stateBuffer ctx) (end' T)")
    case True
    with "1.prems" show ?thesis
      by (auto simp: inDirective_loop.simps [of R T D ctx] split: sum.splits)
  next
    case False
    show ?thesis
    proof (cases "input ctx")
      case Nil
      with False "1.prems" show ?thesis
        by (auto simp: inDirective_loop.simps [of R T D ctx] split: if_splits)
    next
      case (Cons c rest)
      from "1.prems" False Cons have le: "\<not> 1024 < length (stateBuffer ctx)"
        by (auto simp: inDirective_loop.simps [of R T D ctx] split: if_splits)
      from "1.prems" False Cons le
      have "inDirective_loop R T D
              (ctx\<lparr>input := rest, stateBuffer := stateBuffer ctx @ [c]\<rparr>) = Inr (s', ctx')"
        by (simp add: inDirective_loop.simps [of R T D ctx])
      from "1.IH" [OF False le Cons this] Cons show ?thesis
        by (auto intro: suffix_ConsI)
    qed
  qed
qed

lemma inDirectiveState_result:
  assumes "inDirectiveState R T D ctx = Inr (s', ctx')" and "input ctx \<noteq> []"
  shows "length (input ctx') < length (input ctx)"
proof -
  from assms(2) obtain c rest where Cons: "input ctx = c # rest"
    by (cases "input ctx") auto
  with assms(1)
  have "inDirective_loop R T D
          (ctx\<lparr>input := rest, stateBuffer := stateBuffer ctx @ [c]\<rparr>) = Inr (s', ctx')"
    by (simp add: inDirectiveState_def)
  from inDirective_loop_result [OF this] Cons show ?thesis
    by (auto dest: suffix_length_le)
qed

lemma whitespaceConsumerState_result:
  "whitespaceConsumerState nextState ctx = (s', ctx') \<Longrightarrow>
     (s' = WhitespaceConsumer nextState \<and> input ctx' = []) \<or>
     (s' = nextState \<and> suffix (input ctx') (input ctx))"
  by (auto simp: whitespaceConsumerState_def Let_def suffix_dropWhile split: if_splits)

text \<open>
  Every call on a chunk with unread input reads some of it or moves to a state function
  that is nearer to one that reads.
\<close>

fun rank :: "stateFunction \<Rightarrow> nat" where
  "rank InDirective = 0"
| "rank LookingForDirective = 2"
| "rank (WhitespaceConsumer s) = Suc (rank s)"

lemma call_progress:
  assumes "call R T D s ctx = Inr (s', ctx')" and "input ctx \<noteq> []"
  shows "length (input ctx') < length (input ctx) \<or>
         (length (input ctx') = length (input ctx) \<and> rank s' < rank s)"
proof (cases s)
  case LookingForDirective
  with assms(1) have "lookingForDirectiveState T ctx = (s', ctx')"
    by simp
  from lookingForDirectiveState_result [OF this] assms(2) show ?thesis
    using LookingForDirective by (auto dest!: suffix_length_le)
next
  case InDirective
  with assms show ?thesis
    by (auto dest: inDirectiveState_result)
next
  case (WhitespaceConsumer n)
  with assms(1) have "whitespaceConsumerState n ctx = (s', ctx')"
    by simp
  from whitespaceConsumerState_result [OF this] assms(2) show ?thesis
    using WhitespaceConsumer by (auto dest!: suffix_length_le)
qed

lemma call_same_state:
  assumes "call R T D s ctx = Inr (s, ctx')" and "input ctx \<noteq> []"
  shows "length (input ctx') < length (input ctx)"
  using call_progress [OF assms] by simp

text \<open>
  \<open>SwapTransform\<close>: the state function to run next and the context. The loop of
  \<open>_transform\<close> calls state functions while the chunk has unread input, and empties
  the buffer whenever the function returned is not the one called. A \<open>throw\<close> leaves the
  loop and the method: nothing is pushed.
\<close>

record swapTransform =
  nextState :: stateFunction
  context' :: processingContext

definition new_SwapTransform :: swapTransform where
  "new_SwapTransform =
     \<lparr>nextState = LookingForDirective,
      context' = \<lparr>input = [], output' = [], stateBuffer = []\<rparr>\<rparr>"

function transform_loop ::
    "runtime \<Rightarrow> template \<Rightarrow> swapData \<Rightarrow> stateFunction \<Rightarrow> processingContext \<Rightarrow>
     error + stateFunction \<times> processingContext" where
  "transform_loop R T D state ctx =
     (if input ctx \<noteq> [] then
        (case call R T D state ctx of
           Inl e \<Rightarrow> Inl e
         | Inr (newState, ctx') \<Rightarrow>
             if newState \<noteq> state then transform_loop R T D newState (ctx'\<lparr>stateBuffer := []\<rparr>)
             else transform_loop R T D state ctx')
      else Inr (state, ctx))"
  by pat_completeness auto
termination
proof (relation "measures [\<lambda>(R, T, D, s, ctx). length (input ctx), \<lambda>(R, T, D, s, ctx). rank s]")
  show "wf (measures [\<lambda>(R, T, D, s, ctx). length (input ctx), \<lambda>(R, T, D, s, ctx). rank s])"
    by simp
next
  fix R T D state ctx x2 newState ctx'
  assume "input ctx \<noteq> []" "call R T D state ctx = Inr x2" "(newState, ctx') = x2"
    "newState \<noteq> state"
  then show "((R, T, D, newState, ctx'\<lparr>stateBuffer := []\<rparr>), R, T, D, state, ctx)
      \<in> measures [\<lambda>(R, T, D, s, ctx). length (input ctx), \<lambda>(R, T, D, s, ctx). rank s]"
    using call_progress [of R T D state ctx newState ctx'] by auto
next
  fix R T D state ctx x2 newState ctx'
  assume "input ctx \<noteq> []" "call R T D state ctx = Inr x2" "(newState, ctx') = x2"
    "\<not> newState \<noteq> state"
  then show "((R, T, D, state, ctx'), R, T, D, state, ctx)
      \<in> measures [\<lambda>(R, T, D, s, ctx). length (input ctx), \<lambda>(R, T, D, s, ctx). rank s]"
    using call_same_state [of R T D state ctx ctx'] by auto
qed

declare transform_loop.simps [simp del]

text \<open>
  \<open>_transform\<close>: \<open>Inl\<close> is the error handed to the callback, \<open>Inr\<close> the object after the call
  and the string pushed.
\<close>

definition transform ::
    "runtime \<Rightarrow> template \<Rightarrow> swapData \<Rightarrow> swapTransform \<Rightarrow> string \<Rightarrow> error + swapTransform \<times> string" where
  "transform R T D this chunk =
     (case transform_loop R T D (nextState this) ((context' this)\<lparr>input := chunk\<rparr>) of
        Inl e \<Rightarrow> Inl e
      | Inr (state, ctx) \<Rightarrow>
          Inr (\<lparr>nextState = state, context' = ctx\<lparr>output' := []\<rparr>\<rparr>, output' ctx))"

text \<open>
  The stream that drives the transform: the chunks are handed to \<open>_transform\<close> in order;
  an error handed to the callback destroys the stream, so no later chunk is transformed.
  The class defines no \<open>_flush\<close>, so the end of the input pushes nothing. The result is the
  list of strings pushed, one per chunk transformed, and either the error the stream ended
  with or the object as it is when the input ends.
\<close>

fun run ::
    "runtime \<Rightarrow> template \<Rightarrow> swapData \<Rightarrow> swapTransform \<Rightarrow> string list \<Rightarrow>
     string list \<times> (error + swapTransform)" where
  "run R T D this [] = ([], Inr this)"
| "run R T D this (chunk # chunks) =
     (case transform R T D this chunk of
        Inl e \<Rightarrow> ([], Inl e)
      | Inr (this', pushed) \<Rightarrow>
          (case run R T D this' chunks of (rest, r) \<Rightarrow> (pushed # rest, r)))"

definition pipeline ::
    "runtime \<Rightarrow> template \<Rightarrow> swapData \<Rightarrow> string list \<Rightarrow> string list \<times> (error + swapTransform)" where
  "pipeline R T D chunks = run R T D new_SwapTransform chunks"

text \<open>
  Between two chunks the object is idle: the chunk has been read to its end and the output
  has been pushed and cleared. A run succeeds when no error ended the stream.
\<close>

definition idle :: "swapTransform \<Rightarrow> bool" where
  "idle this \<longleftrightarrow> input (context' this) = [] \<and> output' (context' this) = []"

definition succeeds :: "string list \<times> (error + swapTransform) \<Rightarrow> bool" where
  "succeeds r \<longleftrightarrow> (case snd r of Inl e \<Rightarrow> False | Inr this' \<Rightarrow> True)"

text \<open>
  For stating what the buffer of a directive holds: no non-empty initial part of \<open>s\<close> ends
  with the end token \<open>e\<close>, so that \<open>inDirectiveState\<close> reading \<open>s\<close> into an empty buffer never
  finds its buffer ending with \<open>e\<close>.
\<close>

definition unterminated :: "string \<Rightarrow> string \<Rightarrow> bool" where
  "unterminated e s \<longleftrightarrow> list_all (\<lambda>q. \<not> endsWith q e) (filter (\<lambda>q. q \<noteq> []) (prefixes s))"

text \<open>
  A text after which the scanner is as it was at the start: looking for a directive, with
  nothing buffered.
\<close>

definition settled :: "runtime \<Rightarrow> template \<Rightarrow> swapData \<Rightarrow> string \<Rightarrow> bool" where
  "settled R T D pre \<longleftrightarrow>
     (case transform R T D new_SwapTransform pre of
        Inl e \<Rightarrow> False
      | Inr (this', pushed) \<Rightarrow> this' = new_SwapTransform)"

text \<open>
  What the buffer holds, by the state function that is to run next: the scanner for the
  start token holds an initial part of the start token, the whitespace consumer holds
  nothing (and is followed by \<open>inDirectiveState\<close>).
\<close>

definition fits :: "template \<Rightarrow> stateFunction \<Rightarrow> string \<Rightarrow> bool" where
  "fits T s buffer \<longleftrightarrow>
     (case s of
        LookingForDirective \<Rightarrow> prefix buffer (start T)
      | WhitespaceConsumer n \<Rightarrow> n = InDirective \<and> buffer = []
      | InDirective \<Rightarrow> True)"

section \<open>Chunk boundaries\<close>

text \<open>
  Unfolding the loops one step at a time, and the order of field updates.
\<close>

lemma update_order [simp]:
  "ctx\<lparr>output' := x, input := y\<rparr> = ctx\<lparr>input := y, output' := x\<rparr>"
  "ctx\<lparr>stateBuffer := z, input := y\<rparr> = ctx\<lparr>input := y, stateBuffer := z\<rparr>"
  "ctx\<lparr>stateBuffer := z, output' := x\<rparr> = ctx\<lparr>output' := x, stateBuffer := z\<rparr>"
  by (cases ctx; simp)+

lemma looking_full:
  "\<not> length (stateBuffer ctx) < length (start T) \<Longrightarrow>
   lookingForDirectiveState T ctx = (WhitespaceConsumer InDirective, ctx)"
  by (simp add: lookingForDirectiveState.simps [of T ctx])

lemma looking_Nil:
  "length (stateBuffer ctx) < length (start T) \<Longrightarrow> input ctx = [] \<Longrightarrow>
   lookingForDirectiveState T ctx = (LookingForDirective, ctx)"
  by (simp add: lookingForDirectiveState.simps [of T ctx])

lemma looking_match:
  "length (stateBuffer ctx) < length (start T) \<Longrightarrow> input ctx = c # rest \<Longrightarrow>
   c = start T ! length (stateBuffer ctx) \<Longrightarrow>
   lookingForDirectiveState T ctx =
     lookingForDirectiveState T (ctx\<lparr>input := rest, stateBuffer := stateBuffer ctx @ [c]\<rparr>)"
  by (simp add: lookingForDirectiveState.simps [of T ctx])

lemma looking_mismatch:
  "length (stateBuffer ctx) < length (start T) \<Longrightarrow> input ctx = c # rest \<Longrightarrow>
   c \<noteq> start T ! length (stateBuffer ctx) \<Longrightarrow>
   lookingForDirectiveState T ctx =
     lookingForDirectiveState T
       (ctx\<lparr>input := rest, output' := output' ctx @ stateBuffer ctx @ [c], stateBuffer := []\<rparr>)"
  by (simp add: lookingForDirectiveState.simps [of T ctx])

lemma loop_found:
  "endsWith (stateBuffer ctx) (end' T) \<Longrightarrow>
   inDirective_loop R T D ctx =
     (case getValue R D (trim (slice_to_minus (stateBuffer ctx) (length (end' T)))) (separator T) of
        Inl e \<Rightarrow> Inl e
      | Inr value' \<Rightarrow> Inr (LookingForDirective, ctx\<lparr>output' := output' ctx @ value'\<rparr>))"
  by (simp add: inDirective_loop.simps [of R T D ctx])

lemma loop_too_long:
  "\<not> endsWith (stateBuffer ctx) (end' T) \<Longrightarrow> 1024 < length (stateBuffer ctx) \<Longrightarrow>
   inDirective_loop R T D ctx = Inl DirectiveTooLong"
  by (simp add: inDirective_loop.simps [of R T D ctx])

lemma loop_Nil:
  "\<not> endsWith (stateBuffer ctx) (end' T) \<Longrightarrow> \<not> 1024 < length (stateBuffer ctx) \<Longrightarrow>
   input ctx = [] \<Longrightarrow> inDirective_loop R T D ctx = Inr (InDirective, ctx)"
  by (simp add: inDirective_loop.simps [of R T D ctx])

lemma loop_Cons:
  "\<not> endsWith (stateBuffer ctx) (end' T) \<Longrightarrow> \<not> 1024 < length (stateBuffer ctx) \<Longrightarrow>
   input ctx = c # rest \<Longrightarrow>
   inDirective_loop R T D ctx =
     inDirective_loop R T D (ctx\<lparr>input := rest, stateBuffer := stateBuffer ctx @ [c]\<rparr>)"
  by (simp add: inDirective_loop.simps [of R T D ctx])

lemma lookingForDirectiveState_append:
  "lookingForDirectiveState T (ctx\<lparr>input := input ctx @ b\<rparr>) =
     (case lookingForDirectiveState T ctx of
        (s', ctx') \<Rightarrow>
          if s' = LookingForDirective then lookingForDirectiveState T (ctx'\<lparr>input := b\<rparr>)
          else (s', ctx'\<lparr>input := input ctx' @ b\<rparr>))"
proof (induction T ctx rule: lookingForDirectiveState.induct)
  case (1 T ctx)
  show ?case
  proof (cases "length (stateBuffer ctx) < length (start T)")
    case False
    then show ?thesis
      by (simp add: looking_full)
  next
    case True
    show ?thesis
    proof (cases "input ctx")
      case Nil
      with True show ?thesis
        by (simp add: looking_Nil)
    next
      case (Cons c rest)
      show ?thesis
      proof (cases "c = start T ! length (stateBuffer ctx)")
        case eq: True
        let ?ctx1 = "ctx\<lparr>input := rest, stateBuffer := stateBuffer ctx @ [c]\<rparr>"
        have l: "lookingForDirectiveState T (ctx\<lparr>input := input ctx @ b\<rparr>) =
                 lookingForDirectiveState T (?ctx1\<lparr>input := input ?ctx1 @ b\<rparr>)"
          using looking_match [of "ctx\<lparr>input := input ctx @ b\<rparr>" T c "rest @ b"] True Cons eq
          by simp
        have r: "lookingForDirectiveState T ctx = lookingForDirectiveState T ?ctx1"
          using looking_match [of ctx T c rest] True Cons eq by simp
        show ?thesis
          unfolding l r by (rule "1.IH"(1) [OF True Cons eq])
      next
        case neq: False
        let ?ctx1 = "ctx\<lparr>input := rest, output' := output' ctx @ stateBuffer ctx @ [c],
                       stateBuffer := []\<rparr>"
        have l: "lookingForDirectiveState T (ctx\<lparr>input := input ctx @ b\<rparr>) =
                 lookingForDirectiveState T (?ctx1\<lparr>input := input ?ctx1 @ b\<rparr>)"
          using looking_mismatch [of "ctx\<lparr>input := input ctx @ b\<rparr>" T c "rest @ b"] True Cons neq
          by simp
        have r: "lookingForDirectiveState T ctx = lookingForDirectiveState T ?ctx1"
          using looking_mismatch [of ctx T c rest] True Cons neq by simp
        show ?thesis
          unfolding l r by (rule "1.IH"(2) [OF True Cons neq])
      qed
    qed
  qed
qed

lemma inDirective_loop_append:
  "inDirective_loop R T D (ctx\<lparr>input := input ctx @ b\<rparr>) =
     (case inDirective_loop R T D ctx of
        Inl e \<Rightarrow> Inl e
      | Inr (s', ctx') \<Rightarrow>
          if s' = InDirective then inDirectiveState R T D (ctx'\<lparr>input := b\<rparr>)
          else Inr (s', ctx'\<lparr>input := input ctx' @ b\<rparr>))"
proof (induction R T D ctx rule: inDirective_loop.induct)
  case (1 R T D ctx)
  show ?case
  proof (cases "endsWith (stateBuffer ctx) (end' T)")
    case True
    then show ?thesis
      by (simp add: loop_found split: sum.splits)
  next
    case False
    show ?thesis
    proof (cases "1024 < length (stateBuffer ctx)")
      case True
      with False show ?thesis
        by (simp add: loop_too_long)
    next
      case le: False
      show ?thesis
      proof (cases "input ctx")
        case Nil
        have "inDirective_loop R T D ctx = Inr (InDirective, ctx)"
          using loop_Nil [OF _ _ Nil] False le by simp
        moreover have "inDirective_loop R T D (ctx\<lparr>input := b\<rparr>) = inDirectiveState R T D (ctx\<lparr>input := b\<rparr>)"
        proof (cases b)
          case Nil
          then show ?thesis
            using loop_Nil [of "ctx\<lparr>input := b\<rparr>" T R D] False le
            by (simp add: inDirectiveState_def)
        next
          case (Cons c rest)
          then show ?thesis
            using loop_Cons [of "ctx\<lparr>input := b\<rparr>" T c rest R D] False le
            by (simp add: inDirectiveState_def)
        qed
        ultimately show ?thesis
          using Nil by simp
      next
        case (Cons c rest)
        let ?ctx1 = "ctx\<lparr>input := rest, stateBuffer := stateBuffer ctx @ [c]\<rparr>"
        have l: "inDirective_loop R T D (ctx\<lparr>input := input ctx @ b\<rparr>) =
                 inDirective_loop R T D (?ctx1\<lparr>input := input ?ctx1 @ b\<rparr>)"
          using loop_Cons [of "ctx\<lparr>input := input ctx @ b\<rparr>" T c "rest @ b" R D] False le Cons
          by simp
        have r: "inDirective_loop R T D ctx = inDirective_loop R T D ?ctx1"
          using loop_Cons [of ctx T c rest R D] False le Cons by simp
        show ?thesis
          unfolding l r by (rule "1.IH" [OF False le Cons])
      qed
    qed
  qed
qed

lemma inDirectiveState_append:
  "inDirectiveState R T D (ctx\<lparr>input := input ctx @ b\<rparr>) =
     (case inDirectiveState R T D ctx of
        Inl e \<Rightarrow> Inl e
      | Inr (s', ctx') \<Rightarrow>
          if s' = InDirective then inDirectiveState R T D (ctx'\<lparr>input := b\<rparr>)
          else Inr (s', ctx'\<lparr>input := input ctx' @ b\<rparr>))"
proof (cases "input ctx")
  case Nil
  then show ?thesis by (simp add: inDirectiveState_def)
next
  case (Cons c rest)
  with inDirective_loop_append [of R T D "ctx\<lparr>input := rest, stateBuffer := stateBuffer ctx @ [c]\<rparr>" b]
  show ?thesis by (simp add: inDirectiveState_def)
qed

lemma WhitespaceConsumer_neq [simp]: "WhitespaceConsumer n \<noteq> n" "n \<noteq> WhitespaceConsumer n"
  by (induction n) auto

lemma whitespaceConsumerState_append:
  "whitespaceConsumerState n (ctx\<lparr>input := input ctx @ b\<rparr>) =
     (case whitespaceConsumerState n ctx of
        (s', ctx') \<Rightarrow>
          if s' = WhitespaceConsumer n then whitespaceConsumerState n (ctx'\<lparr>input := b\<rparr>)
          else (s', ctx'\<lparr>input := input ctx' @ b\<rparr>))"
proof (cases "dropWhile is_space (input ctx) = []")
  case True
  then have "dropWhile is_space (input ctx @ b) = dropWhile is_space b"
    by (simp add: dropWhile_append dropWhile_eq_Nil_conv)
  with True show ?thesis
    by (simp add: whitespaceConsumerState_def Let_def)
next
  case False
  then have "dropWhile is_space (input ctx @ b) = dropWhile is_space (input ctx) @ b"
    by (auto simp: dropWhile_append dropWhile_eq_Nil_conv)
  with False show ?thesis
    by (auto simp: whitespaceConsumerState_def Let_def)
qed

lemma call_append:
  "call R T D s (ctx\<lparr>input := input ctx @ b\<rparr>) =
     (case call R T D s ctx of
        Inl e \<Rightarrow> Inl e
      | Inr (s', ctx') \<Rightarrow>
          if s' = s then call R T D s (ctx'\<lparr>input := b\<rparr>)
          else Inr (s', ctx'\<lparr>input := input ctx' @ b\<rparr>))"
proof (cases s)
  case LookingForDirective
  then show ?thesis
    by (simp add: lookingForDirectiveState_append split: prod.splits)
next
  case InDirective
  then show ?thesis
    by (simp add: inDirectiveState_append split: sum.splits)
next
  case (WhitespaceConsumer n)
  then show ?thesis
    by (simp add: whitespaceConsumerState_append split: prod.splits)
qed


lemma call_suspended:
  assumes "call R T D s ctx = Inr (s, ctx')"
  shows "input ctx' = []"
proof (cases s)
  case LookingForDirective
  with assms have "lookingForDirectiveState T ctx = (LookingForDirective, ctx')"
    by simp
  from lookingForDirectiveState_result [OF this] show ?thesis
    by simp
next
  case InDirective
  show ?thesis
  proof (cases "input ctx")
    case Nil
    with assms InDirective show ?thesis
      by (auto simp: inDirectiveState_def)
  next
    case (Cons c rest)
    with assms InDirective
    have "inDirective_loop R T D (ctx\<lparr>input := rest, stateBuffer := stateBuffer ctx @ [c]\<rparr>) =
            Inr (InDirective, ctx')"
      by (simp add: inDirectiveState_def)
    from inDirective_loop_result [OF this] show ?thesis
      by simp
  qed
next
  case (WhitespaceConsumer n)
  with assms have "whitespaceConsumerState n ctx = (WhitespaceConsumer n, ctx')"
    by simp
  from whitespaceConsumerState_result [OF this] show ?thesis
    by simp
qed

lemma transform_loop_Nil:
  "input ctx = [] \<Longrightarrow> transform_loop R T D s ctx = Inr (s, ctx)"
  by (simp add: transform_loop.simps [of R T D s ctx])

lemma transform_loop_step:
  "input ctx \<noteq> [] \<Longrightarrow>
   transform_loop R T D s ctx =
     (case call R T D s ctx of
        Inl e \<Rightarrow> Inl e
      | Inr (s', ctx') \<Rightarrow>
          if s' \<noteq> s then transform_loop R T D s' (ctx'\<lparr>stateBuffer := []\<rparr>)
          else transform_loop R T D s ctx')"
  by (simp add: transform_loop.simps [of R T D s ctx])

lemma transform_loop_input:
  "transform_loop R T D s ctx = Inr (s1, ctx1) \<Longrightarrow> input ctx1 = []"
proof (induction R T D s ctx rule: transform_loop.induct)
  case (1 R T D s ctx)
  show ?case
  proof (cases "input ctx = []")
    case True
    with "1.prems" show ?thesis
      by (simp add: transform_loop_Nil)
  next
    case False
    with "1.prems" obtain s' ctx' where c: "call R T D s ctx = Inr (s', ctx')"
      by (auto simp: transform_loop_step split: sum.splits)
    show ?thesis
    proof (cases "s' = s")
      case True
      with "1.prems" False c have "transform_loop R T D s ctx' = Inr (s1, ctx1)"
        by (simp add: transform_loop_step)
      with "1.IH"(2) [OF False c refl] True show ?thesis
        by simp
    next
      case neq: False
      with "1.prems" False c
      have "transform_loop R T D s' (ctx'\<lparr>stateBuffer := []\<rparr>) = Inr (s1, ctx1)"
        by (simp add: transform_loop_step)
      with "1.IH"(1) [OF False c refl] neq show ?thesis
        by simp
    qed
  qed
qed

lemma transform_loop_append:
  "transform_loop R T D s (ctx\<lparr>input := input ctx @ b\<rparr>) =
     (case transform_loop R T D s ctx of
        Inl e \<Rightarrow> Inl e
      | Inr (s1, ctx1) \<Rightarrow> transform_loop R T D s1 (ctx1\<lparr>input := b\<rparr>))"
proof (induction R T D s ctx rule: transform_loop.induct)
  case (1 R T D s ctx)
  show ?case
  proof (cases "input ctx = []")
    case True
    then show ?thesis
      by (simp add: transform_loop_Nil)
  next
    case False
    then have ne: "input (ctx\<lparr>input := input ctx @ b\<rparr>) \<noteq> []"
      by simp
    show ?thesis
    proof (cases "call R T D s ctx")
      case (Inl e)
      then show ?thesis
        using False by (simp add: transform_loop_step [OF ne] transform_loop_step [OF False]
            call_append)
    next
      case (Inr p)
      then obtain s' ctx' where c: "call R T D s ctx = Inr (s', ctx')"
        by (cases p) simp
      show ?thesis
      proof (cases "s' = s")
        case True
        with c have inp: "input ctx' = []"
          by (auto dest: call_suspended)
        from c True inp have r: "transform_loop R T D s ctx = Inr (s, ctx')"
          by (simp add: transform_loop_step [OF False] transform_loop_Nil)
        have l: "transform_loop R T D s (ctx\<lparr>input := input ctx @ b\<rparr>) =
                 transform_loop R T D s (ctx'\<lparr>input := b\<rparr>)"
        proof (cases "b = []")
          case True
          have e: "ctx'\<lparr>input := []\<rparr> = ctx'"
            using inp by (cases ctx') simp
          have "ctx\<lparr>input := input ctx @ b\<rparr> = ctx"
            using True by simp
          then show ?thesis
            unfolding True e using r transform_loop_Nil [OF inp, of R T D s] by simp
        next
          case bne: False
          then have "input (ctx'\<lparr>input := b\<rparr>) \<noteq> []"
            by simp
          from transform_loop_step [OF this] transform_loop_step [OF ne] c True
          show ?thesis
            by (simp add: call_append)
        qed
        show ?thesis
          unfolding l r by simp
      next
        case neq: False
        from c neq have r: "transform_loop R T D s ctx =
            transform_loop R T D s' (ctx'\<lparr>stateBuffer := []\<rparr>)"
          by (simp add: transform_loop_step [OF False])
        from c neq have l: "transform_loop R T D s (ctx\<lparr>input := input ctx @ b\<rparr>) =
            transform_loop R T D s'
              ((ctx'\<lparr>stateBuffer := []\<rparr>)\<lparr>input := input (ctx'\<lparr>stateBuffer := []\<rparr>) @ b\<rparr>)"
          by (simp add: transform_loop_step [OF ne] call_append)
        show ?thesis
          unfolding l r by (rule "1.IH"(1) [OF False c refl neq])
      qed
    qed
  qed
qed

text \<open>The output of a call is only ever appended to.\<close>

lemma lookingForDirectiveState_output:
  "lookingForDirectiveState T (ctx\<lparr>output' := p @ output' ctx\<rparr>) =
     (case lookingForDirectiveState T ctx of
        (s', ctx') \<Rightarrow> (s', ctx'\<lparr>output' := p @ output' ctx'\<rparr>))"
proof (induction T ctx rule: lookingForDirectiveState.induct)
  case (1 T ctx)
  let ?ctx = "ctx\<lparr>output' := p @ output' ctx\<rparr>"
  show ?case
  proof (cases "length (stateBuffer ctx) < length (start T)")
    case False
    then show ?thesis
      by (simp add: looking_full)
  next
    case True
    show ?thesis
    proof (cases "input ctx")
      case Nil
      with True show ?thesis
        by (simp add: looking_Nil)
    next
      case (Cons c rest)
      show ?thesis
      proof (cases "c = start T ! length (stateBuffer ctx)")
        case eq: True
        let ?ctx1 = "ctx\<lparr>input := rest, stateBuffer := stateBuffer ctx @ [c]\<rparr>"
        have l: "lookingForDirectiveState T ?ctx =
                 lookingForDirectiveState T (?ctx1\<lparr>output' := p @ output' ?ctx1\<rparr>)"
          using looking_match [of ?ctx T c rest] True Cons eq by simp
        have r: "lookingForDirectiveState T ctx = lookingForDirectiveState T ?ctx1"
          using looking_match [of ctx T c rest] True Cons eq by simp
        show ?thesis
          unfolding l r by (rule "1.IH"(1) [OF True Cons eq])
      next
        case neq: False
        let ?ctx1 = "ctx\<lparr>input := rest, output' := output' ctx @ stateBuffer ctx @ [c],
                       stateBuffer := []\<rparr>"
        have l: "lookingForDirectiveState T ?ctx =
                 lookingForDirectiveState T (?ctx1\<lparr>output' := p @ output' ?ctx1\<rparr>)"
          using looking_mismatch [of ?ctx T c rest] True Cons neq by simp
        have r: "lookingForDirectiveState T ctx = lookingForDirectiveState T ?ctx1"
          using looking_mismatch [of ctx T c rest] True Cons neq by simp
        show ?thesis
          unfolding l r by (rule "1.IH"(2) [OF True Cons neq])
      qed
    qed
  qed
qed

lemma inDirective_loop_output:
  "inDirective_loop R T D (ctx\<lparr>output' := p @ output' ctx\<rparr>) =
     (case inDirective_loop R T D ctx of
        Inl e \<Rightarrow> Inl e
      | Inr (s', ctx') \<Rightarrow> Inr (s', ctx'\<lparr>output' := p @ output' ctx'\<rparr>))"
proof (induction R T D ctx rule: inDirective_loop.induct)
  case (1 R T D ctx)
  let ?ctx = "ctx\<lparr>output' := p @ output' ctx\<rparr>"
  show ?case
  proof (cases "endsWith (stateBuffer ctx) (end' T)")
    case True
    then show ?thesis
      by (simp add: loop_found split: sum.splits)
  next
    case False
    show ?thesis
    proof (cases "1024 < length (stateBuffer ctx)")
      case True
      with False show ?thesis
        by (simp add: loop_too_long)
    next
      case le: False
      show ?thesis
      proof (cases "input ctx")
        case Nil
        with False le show ?thesis
          by (simp add: loop_Nil)
      next
        case (Cons c rest)
        let ?ctx1 = "ctx\<lparr>input := rest, stateBuffer := stateBuffer ctx @ [c]\<rparr>"
        have l: "inDirective_loop R T D ?ctx =
                 inDirective_loop R T D (?ctx1\<lparr>output' := p @ output' ?ctx1\<rparr>)"
          using loop_Cons [of ?ctx T c rest R D] False le Cons by simp
        have r: "inDirective_loop R T D ctx = inDirective_loop R T D ?ctx1"
          using loop_Cons [of ctx T c rest R D] False le Cons by simp
        show ?thesis
          unfolding l r by (rule "1.IH" [OF False le Cons])
      qed
    qed
  qed
qed

lemma call_output:
  "call R T D s (ctx\<lparr>output' := p @ output' ctx\<rparr>) =
     (case call R T D s ctx of
        Inl e \<Rightarrow> Inl e
      | Inr (s', ctx') \<Rightarrow> Inr (s', ctx'\<lparr>output' := p @ output' ctx'\<rparr>))"
proof (cases s)
  case LookingForDirective
  then show ?thesis
    by (simp add: lookingForDirectiveState_output split: prod.splits)
next
  case InDirective
  show ?thesis
  proof (cases "input ctx")
    case Nil
    with InDirective show ?thesis
      by (simp add: inDirectiveState_def)
  next
    case (Cons c rest)
    with InDirective
      inDirective_loop_output
        [where T = T and D = D and p = p
           and ctx = "ctx\<lparr>input := rest, stateBuffer := stateBuffer ctx @ [c]\<rparr>"]
    show ?thesis
      by (simp add: inDirectiveState_def)
  qed
next
  case (WhitespaceConsumer n)
  then show ?thesis
    by (simp add: whitespaceConsumerState_def Let_def)
qed

lemma transform_loop_output:
  "transform_loop R T D s (ctx\<lparr>output' := p @ output' ctx\<rparr>) =
     (case transform_loop R T D s ctx of
        Inl e \<Rightarrow> Inl e
      | Inr (s1, ctx1) \<Rightarrow> Inr (s1, ctx1\<lparr>output' := p @ output' ctx1\<rparr>))"
proof (induction R T D s ctx rule: transform_loop.induct)
  case (1 R T D s ctx)
  let ?ctx = "ctx\<lparr>output' := p @ output' ctx\<rparr>"
  show ?case
  proof (cases "input ctx = []")
    case True
    then show ?thesis
      by (simp add: transform_loop_Nil)
  next
    case False
    then have ne: "input ?ctx \<noteq> []"
      by simp
    show ?thesis
    proof (cases "call R T D s ctx")
      case (Inl e)
      then show ?thesis
        by (simp add: transform_loop_step [OF ne] transform_loop_step [OF False] call_output)
    next
      case (Inr q)
      then obtain s' ctx' where c: "call R T D s ctx = Inr (s', ctx')"
        by (cases q) simp
      show ?thesis
      proof (cases "s' = s")
        case True
        from c True have r: "transform_loop R T D s ctx = transform_loop R T D s ctx'"
          by (simp add: transform_loop_step [OF False])
        from c True have l: "transform_loop R T D s ?ctx =
            transform_loop R T D s (ctx'\<lparr>output' := p @ output' ctx'\<rparr>)"
          by (simp add: transform_loop_step [OF ne] call_output)
        show ?thesis
          unfolding l r using "1.IH"(2) [OF False c refl] True by simp
      next
        case neq: False
        let ?ctx1 = "ctx'\<lparr>stateBuffer := []\<rparr>"
        from c neq have r: "transform_loop R T D s ctx = transform_loop R T D s' ?ctx1"
          by (simp add: transform_loop_step [OF False])
        from c neq have l: "transform_loop R T D s ?ctx =
            transform_loop R T D s' (?ctx1\<lparr>output' := p @ output' ?ctx1\<rparr>)"
          by (simp add: transform_loop_step [OF ne] call_output)
        show ?thesis
          unfolding l r by (rule "1.IH"(1) [OF False c refl neq])
      qed
    qed
  qed
qed

lemma transform_append:
  "transform R T D this (a @ b) =
     (case transform R T D this a of
        Inl e \<Rightarrow> Inl e
      | Inr (this1, pushed1) \<Rightarrow>
          (case transform R T D this1 b of
             Inl e \<Rightarrow> Inl e
           | Inr (this2, pushed2) \<Rightarrow> Inr (this2, pushed1 @ pushed2)))"
proof -
  let ?ctx = "(context' this)\<lparr>input := a\<rparr>"
  have l: "transform_loop R T D (nextState this) ((context' this)\<lparr>input := a @ b\<rparr>) =
      (case transform_loop R T D (nextState this) ?ctx of
         Inl e \<Rightarrow> Inl e
       | Inr (s1, ctx1) \<Rightarrow> transform_loop R T D s1 (ctx1\<lparr>input := b\<rparr>))"
    using transform_loop_append [of R T D "nextState this" ?ctx b] by simp
  show ?thesis
  proof (cases "transform_loop R T D (nextState this) ?ctx")
    case (Inl e)
    with l show ?thesis
      by (simp add: transform_def)
  next
    case (Inr q)
    then obtain s1 ctx1 where
      a: "transform_loop R T D (nextState this) ?ctx = Inr (s1, ctx1)"
      by (cases q) simp
    let ?c = "ctx1\<lparr>input := b, output' := []\<rparr>"
    have "transform_loop R T D s1 (?c\<lparr>output' := output' ctx1 @ output' ?c\<rparr>) =
      (case transform_loop R T D s1 ?c of
         Inl e \<Rightarrow> Inl e
       | Inr (s2, ctx2) \<Rightarrow> Inr (s2, ctx2\<lparr>output' := output' ctx1 @ output' ctx2\<rparr>))"
      by (rule transform_loop_output)
    then have "transform_loop R T D s1 (ctx1\<lparr>input := b\<rparr>) =
      (case transform_loop R T D s1 ?c of
         Inl e \<Rightarrow> Inl e
       | Inr (s2, ctx2) \<Rightarrow> Inr (s2, ctx2\<lparr>output' := output' ctx1 @ output' ctx2\<rparr>))"
      by simp
    with l a show ?thesis
      by (simp add: transform_def split: sum.splits)
  qed
qed

section \<open>Streams of chunks\<close>

lemma idle_new [simp]: "idle new_SwapTransform"
  by (simp add: idle_def new_SwapTransform_def)

lemma transform_idle:
  "transform R T D this chunk = Inr (this', pushed) \<Longrightarrow> idle this'"
  by (auto simp: transform_def idle_def split: sum.splits dest: transform_loop_input)

lemma transform_Nil:
  assumes "idle this"
  shows "transform R T D this [] = Inr (this, [])"
proof -
  from assms have "(context' this)\<lparr>input := []\<rparr> = context' this"
    by (cases "context' this") (simp add: idle_def)
  moreover from assms have "(context' this)\<lparr>output' := []\<rparr> = context' this"
    by (cases "context' this") (simp add: idle_def)
  moreover from assms have "input (context' this) = []" "output' (context' this) = []"
    by (simp_all add: idle_def)
  ultimately show ?thesis
    by (cases this) (simp add: transform_def transform_loop_Nil)
qed

text \<open>
  A run over chunks and \<open>_transform\<close> on their concatenation end alike: with the same error,
  or with the same object and the same text pushed.
\<close>

lemma run_concat:
  "idle this \<Longrightarrow>
   (case transform R T D this (concat chunks) of
      Inl e \<Rightarrow> snd (run R T D this chunks) = Inl e
    | Inr (this', pushed) \<Rightarrow>
        snd (run R T D this chunks) = Inr this' \<and> concat (fst (run R T D this chunks)) = pushed)"
proof (induction chunks arbitrary: this)
  case Nil
  then show ?case
    by (simp add: transform_Nil)
next
  case (Cons c cs)
  show ?case
  proof (cases "transform R T D this c")
    case (Inl e)
    then show ?thesis
      by (simp add: transform_append)
  next
    case (Inr q)
    then obtain this1 p1 where t: "transform R T D this c = Inr (this1, p1)"
      by (cases q) simp
    from Cons.IH [OF transform_idle [OF t]] t show ?thesis
      by (auto simp: transform_append split: sum.splits prod.splits)
  qed
qed

lemma run_chunking:
  assumes "idle this" and "concat chunks1 = concat chunks2"
  shows "snd (run R T D this chunks1) = snd (run R T D this chunks2)"
    and "succeeds (run R T D this chunks1) \<Longrightarrow>
         concat (fst (run R T D this chunks1)) = concat (fst (run R T D this chunks2))"
  using run_concat [OF assms(1), of R T D chunks1] run_concat [OF assms(1), of R T D chunks2] assms(2)
  by (auto simp: succeeds_def split: sum.splits)

section \<open>The resolver and the template\<close>

lemma getValue_loop_errors:
  "getValue_loop R n path segs = Inl e \<Longrightarrow>
     e = IndexIntoLeaf path \<or> (\<exists>key. e = UnknownKey key path)"
  by (induction R n path segs rule: getValue_loop.induct)
     (auto split: jsValue.splits dataNode.splits option.splits read.splits if_splits)

lemma getValue_errors:
  "getValue R D path sep = Inl e \<Longrightarrow>
     e = IndexIntoLeaf path \<or> (\<exists>key. e = UnknownKey key path) \<or> e = NotALeaf path"
  by (auto simp: getValue_def split: sum.splits jsValue.splits dataNode.splits
      dest: getValue_loop_errors)

lemma message_names:
  "sublist path (message (IndexIntoLeaf path))"
  "sublist key (message (UnknownKey key path))"
  "sublist path (message (UnknownKey key path))"
  "sublist path (message (NotALeaf path))"
  "sublist raw (message (TooFewTokens raw))"
  "sublist raw (message (TooManyTokens raw))"
  unfolding message.simps quoted_def sublist_def
  by (metis append.assoc)+

text \<open>The tokens of a template string are the words of the string.\<close>

declare words_of.simps [simp del]

lemma words_of_none: "dropWhile is_space s = [] \<Longrightarrow> words_of s = []"
proof -
  assume a: "dropWhile is_space s = []"
  show ?thesis
    unfolding words_of.simps [of s] a by simp
qed

lemma words_of_some:
  "dropWhile is_space s = c # cs \<Longrightarrow>
   words_of s =
     (c # takeWhile (\<lambda>x. \<not> is_space x) cs) # words_of (dropWhile (\<lambda>x. \<not> is_space x) cs)"
proof -
  assume a: "dropWhile is_space s = c # cs"
  show ?thesis
    unfolding words_of.simps [of s] a by simp
qed

lemma words_of_Nil [simp]: "words_of [] = []"
  by (simp add: words_of_none)

lemma words_of_spaces: "list_all is_space ws \<Longrightarrow> words_of ws = []"
proof -
  assume "list_all is_space ws"
  then have "dropWhile is_space ws = []"
    by (simp add: list_all_iff)
  then show ?thesis
    by (rule words_of_none)
qed

lemma words_of_word:
  "\<not> is_space c \<Longrightarrow>
   words_of (c # cs) =
     (c # takeWhile (\<lambda>x. \<not> is_space x) cs) # words_of (dropWhile (\<lambda>x. \<not> is_space x) cs)"
  by (simp add: words_of.simps [of "c # cs"])

lemma words_of_dropWhile: "words_of (dropWhile is_space s) = words_of s"
  by (simp add: words_of.simps [of s] words_of.simps [of "dropWhile is_space s"])

lemma words_of_append_spaces:
  "list_all is_space ws \<Longrightarrow> words_of (s @ ws) = words_of s"
proof (induction s rule: words_of.induct)
  case (1 s)
  show ?case
  proof (cases "dropWhile is_space s")
    case Nil
    then have "list_all is_space (s @ ws)"
      using "1.prems" by (auto simp: list_all_iff)
    with words_of_none [OF Nil] show ?thesis
      by (simp add: words_of_spaces)
  next
    case (Cons c cs)
    then have c: "\<not> is_space c"
      using hd_dropWhile [of is_space s] by simp
    from Cons have "dropWhile is_space s \<noteq> []"
      by simp
    then obtain x where "x \<in> set s" "\<not> is_space x"
      by auto
    then have "dropWhile is_space (s @ ws) = dropWhile is_space s @ ws"
      by (rule dropWhile_append1)
    with Cons have d: "dropWhile is_space (s @ ws) = c # (cs @ ws)"
      by simp
    let ?P = "\<lambda>x. \<not> is_space x"
    show ?thesis
    proof (cases "dropWhile ?P cs = []")
      case True
      then have all: "\<forall>x \<in> set cs. \<not> is_space x"
        by simp
      from "1.prems" have tw: "takeWhile ?P ws = []"
        by (cases ws) (auto simp: list_all_iff)
      from all have "takeWhile ?P (cs @ ws) = cs @ takeWhile ?P ws"
        by (simp add: takeWhile_append2)
      also from tw have "\<dots> = cs"
        by simp
      finally have "takeWhile ?P (cs @ ws) = cs" .
      moreover from all have "takeWhile ?P cs = cs"
        by (simp add: takeWhile_eq_all_conv)
      ultimately have t: "takeWhile ?P (cs @ ws) = takeWhile ?P cs"
        by (simp only:)
      from "1.prems" have "dropWhile ?P ws = ws"
        by (cases ws) (auto simp: list_all_iff)
      with all have dd: "dropWhile ?P (cs @ ws) = ws"
        by (simp add: dropWhile_append)
      have "words_of s = [c # takeWhile ?P cs]"
        unfolding words_of_some [OF Cons] True by simp
      moreover have "words_of (s @ ws) = [c # takeWhile ?P cs]"
        unfolding words_of_some [OF d] t dd using words_of_spaces [OF "1.prems"] by simp
      ultimately show ?thesis
        by simp
    next
      case False
      then have ex: "\<exists>x \<in> set cs. is_space x"
        by auto
      then have t: "takeWhile ?P (cs @ ws) = takeWhile ?P cs"
        by (auto simp: takeWhile_append)
      from ex have dd: "dropWhile ?P (cs @ ws) = dropWhile ?P cs @ ws"
        by (auto simp: dropWhile_append)
      from "1.IH" [OF Cons "1.prems"] t dd show ?thesis
        by (simp add: words_of_some [OF Cons] words_of_some [OF d])
    qed
  qed
qed

lemma words_of_trim: "words_of (trim s) = words_of s"
proof -
  let ?t = "dropWhile is_space s"
  let ?a = "rev (dropWhile is_space (rev ?t))"
  let ?b = "rev (takeWhile is_space (rev ?t))"
  have "?a @ ?b = rev (takeWhile is_space (rev ?t) @ dropWhile is_space (rev ?t))"
    by (simp only: rev_append)
  also have "\<dots> = rev (rev ?t)"
    by (simp only: takeWhile_dropWhile_id)
  finally have t: "?t = ?a @ ?b"
    by simp
  have "list_all is_space ?b"
    by (auto simp: list_all_iff dest: set_takeWhileD)
  then have "words_of (?a @ ?b) = words_of ?a"
    by (rule words_of_append_spaces)
  with t have "words_of ?t = words_of ?a"
    by simp
  then show ?thesis
    by (simp add: trim_def words_of_dropWhile)
qed

lemma split_ws_words:
  "u = [] \<or> \<not> is_space (last u) \<Longrightarrow>
   split_ws acc u =
     (acc @ takeWhile (\<lambda>x. \<not> is_space x) u) # words_of (dropWhile (\<lambda>x. \<not> is_space x) u)"
proof (induction acc u rule: split_ws.induct)
  case (1 acc)
  then show ?case by simp
next
  case (2 acc c cs)
  let ?P = "\<lambda>x. \<not> is_space x"
  show ?case
  proof (cases "is_space c")
    case True
    with "2.prems" have cs: "cs \<noteq> []" "\<not> is_space (last cs)"
      by (auto split: if_splits)
    let ?u = "dropWhile is_space cs"
    have ne: "?u \<noteq> []"
    proof
      assume "?u = []"
      then have "\<forall>x \<in> set cs. is_space x"
        by simp
      with cs last_in_set [of cs] show False
        by blast
    qed
    then have "last ?u = last cs"
      using last_appendR [of ?u "takeWhile is_space cs"] by simp
    with cs have "?u = [] \<or> \<not> is_space (last ?u)"
      by simp
    from "2.IH"(1) [OF True this]
    have "split_ws [] ?u = takeWhile ?P ?u # words_of (dropWhile ?P ?u)"
      by simp
    moreover from ne obtain c' cs' where u: "?u = c' # cs'"
      by (cases ?u) auto
    moreover from u have "\<not> is_space c'"
      using hd_dropWhile [of is_space cs] by simp
    ultimately have "split_ws [] ?u = words_of ?u"
      by (simp add: words_of_word)
    then have "split_ws [] ?u = words_of (c # cs)"
      using True by (simp add: words_of_dropWhile words_of.simps [of "c # cs"] words_of.simps [of cs])
    with True show ?thesis
      by simp
  next
    case False
    from "2.prems" have "cs = [] \<or> \<not> is_space (last cs)"
      by (auto split: if_splits)
    from "2.IH"(2) [OF False this] False show ?thesis
      by simp
  qed
qed

lemma trim_ends:
  "trim s = [] \<or> (\<not> is_space (hd (trim s)) \<and> \<not> is_space (last (trim s)))"
proof (cases "trim s = []")
  case True
  then show ?thesis by simp
next
  case False
  let ?r = "dropWhile is_space (rev (dropWhile is_space s))"
  from False have r: "?r \<noteq> []"
    by (simp add: trim_def)
  then have "\<not> is_space (hd ?r)"
    by (rule hd_dropWhile)
  with r have l: "\<not> is_space (last (trim s))"
    by (simp add: trim_def last_rev)
  have "hd (trim s) = last ?r"
    using r by (simp add: trim_def hd_rev)
  moreover from r have "last ?r = last (rev (dropWhile is_space s))"
    using last_appendR [of ?r "takeWhile is_space (rev (dropWhile is_space s))"] by simp
  moreover have d: "dropWhile is_space s \<noteq> []"
  proof
    assume "dropWhile is_space s = []"
    then have "?r = []"
      by (simp only: rev.simps dropWhile.simps)
    with r show False ..
  qed
  then have "last (rev (dropWhile is_space s)) = hd (dropWhile is_space s)"
    by (simp add: last_rev)
  moreover from d have "\<not> is_space (hd (dropWhile is_space s))"
    by (rule hd_dropWhile)
  ultimately show ?thesis
    using l by simp
qed

lemma split_ws_trim:
  "split_ws [] (trim s) = (if words_of s = [] then [[]] else words_of s)"
proof (cases "trim s = []")
  case True
  then have "words_of s = []"
    using words_of_trim [of s] by simp
  with True show ?thesis
    by simp
next
  case False
  then obtain c cs where t: "trim s = c # cs"
    by (cases "trim s") auto
  with trim_ends [of s] have c: "\<not> is_space c" and l: "\<not> is_space (last (trim s))"
    by auto
  from l have "split_ws [] (trim s) =
      takeWhile (\<lambda>x. \<not> is_space x) (trim s) # words_of (dropWhile (\<lambda>x. \<not> is_space x) (trim s))"
    using split_ws_words [of "trim s" "[]"] by simp
  with t c have "split_ws [] (trim s) = words_of (trim s)" "words_of (trim s) \<noteq> []"
    by (simp_all add: words_of_word)
  then show ?thesis
    by (simp add: words_of_trim)
qed

lemma words_of_tokens:
  "\<forall>w \<in> set (words_of s). w \<noteq> [] \<and> (\<forall>x \<in> set w. \<not> is_space x)"
proof (induction s rule: words_of.induct)
  case (1 s)
  let ?P = "\<lambda>x. \<not> is_space x"
  show ?case
  proof (cases "dropWhile is_space s")
    case Nil
    then show ?thesis
      by (simp add: words_of_none)
  next
    case (Cons c cs)
    then have c: "\<not> is_space c"
      using hd_dropWhile [of is_space s] by simp
    have "\<forall>x \<in> set (takeWhile ?P cs). \<not> is_space x"
      by (auto dest: set_takeWhileD)
    with c have first: "\<forall>x \<in> set (c # takeWhile ?P cs). \<not> is_space x"
      by simp
    have rest: "\<forall>w \<in> set (words_of (dropWhile ?P cs)). w \<noteq> [] \<and> (\<forall>x \<in> set w. \<not> is_space x)"
      by (rule "1.IH" [OF Cons])
    have e: "words_of s = (c # takeWhile ?P cs) # words_of (dropWhile ?P cs)"
      by (rule words_of_some [OF Cons])
    show ?thesis
    proof
      fix w
      assume "w \<in> set (words_of s)"
      then have "w = c # takeWhile ?P cs \<or> w \<in> set (words_of (dropWhile ?P cs))"
        unfolding e by (simp only: set_ConsD list.set insert_iff)
      then show "w \<noteq> [] \<and> (\<forall>x \<in> set w. \<not> is_space x)"
      proof
        assume w: "w = c # takeWhile ?P cs"
        then have "w \<noteq> []"
          by (simp only: list.distinct not_False_eq_True)
        with first w show ?thesis
          by blast
      next
        assume "w \<in> set (words_of (dropWhile ?P cs))"
        with rest show ?thesis
          by blast
      qed
    qed
  qed
qed

lemma concat_words_of: "concat (words_of s) = filter (\<lambda>x. \<not> is_space x) s"
proof (induction s rule: words_of.induct)
  case (1 s)
  let ?P = "\<lambda>x. \<not> is_space x"
  have s: "filter ?P s = filter ?P (dropWhile is_space s)"
    by (induction s) auto
  show ?case
  proof (cases "dropWhile is_space s")
    case Nil
    with s words_of_none [OF Nil] show ?thesis
      by (simp del: dropWhile_eq_Nil_conv)
  next
    case (Cons c cs)
    then have c: "\<not> is_space c"
      using hd_dropWhile [of is_space s] by simp
    have "filter ?P cs = takeWhile ?P cs @ filter ?P (dropWhile ?P cs)"
      by (induction cs) auto
    with "1.IH" [OF Cons] Cons c s show ?thesis
      by (simp add: words_of_some [OF Cons])
  qed
qed

section \<open>Plain text and directives\<close>

lemma lookingForDirectiveState_conserves:
  "lookingForDirectiveState T ctx = (s', ctx') \<Longrightarrow>
     \<exists>flushed. output' ctx' = output' ctx @ flushed \<and>
       flushed @ stateBuffer ctx' @ input ctx' = stateBuffer ctx @ input ctx"
proof (induction T ctx rule: lookingForDirectiveState.induct)
  case (1 T ctx)
  show ?case
  proof (cases "length (stateBuffer ctx) < length (start T)")
    case False
    with "1.prems" show ?thesis
      by (simp add: looking_full)
  next
    case True
    show ?thesis
    proof (cases "input ctx")
      case Nil
      with True "1.prems" show ?thesis
        by (simp add: looking_Nil)
    next
      case (Cons c rest)
      show ?thesis
      proof (cases "c = start T ! length (stateBuffer ctx)")
        case eq: True
        from "1.IH"(1) [OF True Cons eq] "1.prems" looking_match [OF True Cons eq] Cons
        show ?thesis
          by simp
      next
        case neq: False
        from "1.prems" looking_mismatch [OF True Cons neq]
        have "lookingForDirectiveState T
            (ctx\<lparr>input := rest, output' := output' ctx @ stateBuffer ctx @ [c],
               stateBuffer := []\<rparr>) = (s', ctx')"
          by simp
        from "1.IH"(2) [OF True Cons neq this] obtain flushed where
          "output' ctx' = (output' ctx @ stateBuffer ctx @ [c]) @ flushed"
          "flushed @ stateBuffer ctx' @ input ctx' = rest"
          by auto
        with Cons have "output' ctx' = output' ctx @ (stateBuffer ctx @ [c] @ flushed) \<and>
            (stateBuffer ctx @ [c] @ flushed) @ stateBuffer ctx' @ input ctx' =
              stateBuffer ctx @ input ctx"
          by simp
        then show ?thesis
          by blast
      qed
    qed
  qed
qed

lemma lookingForDirectiveState_prefix:
  "lookingForDirectiveState T ctx = (s', ctx') \<Longrightarrow> prefix (stateBuffer ctx) (start T) \<Longrightarrow>
     (s' = LookingForDirective \<and> strict_prefix (stateBuffer ctx') (start T)) \<or>
     (s' = WhitespaceConsumer InDirective \<and> stateBuffer ctx' = start T)"
proof (induction T ctx rule: lookingForDirectiveState.induct)
  case (1 T ctx)
  show ?case
  proof (cases "length (stateBuffer ctx) < length (start T)")
    case False
    with "1.prems"(2) have "stateBuffer ctx = start T"
      by (auto simp: prefix_def)
    with False "1.prems" show ?thesis
      by (simp add: looking_full)
  next
    case True
    show ?thesis
    proof (cases "input ctx")
      case Nil
      with True "1.prems" show ?thesis
        by (auto simp: looking_Nil strict_prefix_def)
    next
      case (Cons c rest)
      show ?thesis
      proof (cases "c = start T ! length (stateBuffer ctx)")
        case eq: True
        from "1.prems"(2) have "stateBuffer ctx = take (length (stateBuffer ctx)) (start T)"
          by (auto simp: prefix_def)
        with True eq have "stateBuffer ctx @ [c] = take (Suc (length (stateBuffer ctx))) (start T)"
          by (simp add: take_Suc_conv_app_nth)
        then have "prefix (stateBuffer ctx @ [c]) (start T)"
          by (simp add: take_is_prefix)
        with "1.IH"(1) [OF True Cons eq] "1.prems" looking_match [OF True Cons eq]
        show ?thesis
          by simp
      next
        case neq: False
        from "1.IH"(2) [OF True Cons neq] "1.prems" looking_mismatch [OF True Cons neq]
        show ?thesis
          by simp
      qed
    qed
  qed
qed


lemma looking_no_start:
  assumes "lookingForDirectiveState T ctx = (s', ctx')"
    and "prefix (stateBuffer ctx) (start T)"
    and "\<not> sublist (start T) (stateBuffer ctx @ input ctx)"
  shows "s' = LookingForDirective \<and> input ctx' = [] \<and>
         strict_prefix (stateBuffer ctx') (start T) \<and>
         (\<exists>flushed. output' ctx' = output' ctx @ flushed \<and>
            flushed @ stateBuffer ctx' = stateBuffer ctx @ input ctx)"
proof -
  from lookingForDirectiveState_conserves [OF assms(1)] obtain flushed where
    f: "output' ctx' = output' ctx @ flushed"
      "flushed @ stateBuffer ctx' @ input ctx' = stateBuffer ctx @ input ctx"
    by blast
  have "s' \<noteq> WhitespaceConsumer InDirective"
  proof
    assume "s' = WhitespaceConsumer InDirective"
    with lookingForDirectiveState_prefix [OF assms(1,2)] have "stateBuffer ctx' = start T"
      by simp
    with f(2) have "sublist (start T) (stateBuffer ctx @ input ctx)"
      by (metis sublist_appendI)
    with assms(3) show False ..
  qed
  with lookingForDirectiveState_prefix [OF assms(1,2)] lookingForDirectiveState_result [OF assms(1)] f
  show ?thesis
    by auto
qed

lemma looking_start:
  "k \<le> length (start T) \<Longrightarrow> stateBuffer ctx = take k (start T) \<Longrightarrow>
   input ctx = drop k (start T) @ rest \<Longrightarrow>
   lookingForDirectiveState T ctx =
     (WhitespaceConsumer InDirective, ctx\<lparr>input := rest, stateBuffer := start T\<rparr>)"
proof (induction "length (start T) - k" arbitrary: k ctx)
  case 0
  then have "k = length (start T)" by simp
  with "0.prems" have "stateBuffer ctx = start T" "input ctx = rest"
    by simp_all
  then have "ctx\<lparr>input := rest, stateBuffer := start T\<rparr> = ctx"
    by (cases ctx) simp
  moreover have "\<not> length (stateBuffer ctx) < length (start T)"
    using \<open>stateBuffer ctx = start T\<close> by simp
  ultimately show ?case
    by (simp add: looking_full)
next
  case (Suc n)
  then have k: "k < length (start T)"
    by simp
  with Suc.prems have len: "length (stateBuffer ctx) = k"
    by simp
  from k Suc.prems(3) have inp: "input ctx = start T ! k # (drop (Suc k) (start T) @ rest)"
    by (simp add: Cons_nth_drop_Suc)
  let ?ctx1 = "ctx\<lparr>input := drop (Suc k) (start T) @ rest,
                  stateBuffer := stateBuffer ctx @ [start T ! k]\<rparr>"
  have m: "lookingForDirectiveState T ctx = lookingForDirectiveState T ?ctx1"
  proof -
    have a: "length (stateBuffer ctx) < length (start T)"
      using k len by simp
    have b: "start T ! k = start T ! length (stateBuffer ctx)"
      using len by simp
    show ?thesis
      by (rule looking_match [OF a inp b])
  qed
  have "lookingForDirectiveState T ?ctx1 =
      (WhitespaceConsumer InDirective, ?ctx1\<lparr>input := rest, stateBuffer := start T\<rparr>)"
  proof (rule Suc.hyps(1))
    show "n = length (start T) - Suc k"
      using Suc.hyps(2) by simp
    show "Suc k \<le> length (start T)"
      using k by simp
    show "stateBuffer ?ctx1 = take (Suc k) (start T)"
      using k Suc.prems(2) by (simp add: take_Suc_conv_app_nth)
    show "input ?ctx1 = drop (Suc k) (start T) @ rest"
      by simp
  qed
  with m show ?case
    by simp
qed

text \<open>What \<open>inDirectiveState\<close> accumulates while its buffer does not end with the end token.\<close>

lemma unterminated_iff:
  "unterminated e s \<longleftrightarrow> (\<forall>q. prefix q s \<and> q \<noteq> [] \<longrightarrow> \<not> endsWith q e)"
  by (auto simp: unterminated_def list_all_iff)

lemma unterminated_snoc:
  "unterminated e (s @ [c]) \<longleftrightarrow> unterminated e s \<and> \<not> endsWith (s @ [c]) e"
  by (auto simp: unterminated_iff)

lemma unterminated_append:
  "unterminated e (s @ t) \<Longrightarrow> unterminated e s"
  by (auto simp: unterminated_iff)

lemma inDirective_loop_accumulates:
  "unterminated e (stateBuffer ctx @ input ctx) \<Longrightarrow> stateBuffer ctx \<noteq> [] \<Longrightarrow> e = end' T \<Longrightarrow>
   length (stateBuffer ctx @ input ctx) \<le> 1024 \<Longrightarrow>
   inDirective_loop R T D ctx =
     Inr (InDirective, ctx\<lparr>input := [], stateBuffer := stateBuffer ctx @ input ctx\<rparr>)"
proof (induction R T D ctx rule: inDirective_loop.induct)
  case (1 R T D ctx)
  from "1.prems" have ne: "\<not> endsWith (stateBuffer ctx) (end' T)"
    by (auto simp: unterminated_iff)
  from "1.prems" have le: "\<not> 1024 < length (stateBuffer ctx)"
    by simp
  show ?case
  proof (cases "input ctx")
    case Nil
    then have "ctx\<lparr>input := [], stateBuffer := stateBuffer ctx @ input ctx\<rparr> = ctx"
      by (cases ctx) simp
    with loop_Nil [OF ne le Nil] show ?thesis
      by simp
  next
    case (Cons c rest)
    let ?ctx1 = "ctx\<lparr>input := rest, stateBuffer := stateBuffer ctx @ [c]\<rparr>"
    have "inDirective_loop R T D ?ctx1 =
        Inr (InDirective, ?ctx1\<lparr>input := [], stateBuffer := stateBuffer ?ctx1 @ input ?ctx1\<rparr>)"
      using "1.prems" Cons by (intro "1.IH" [OF ne le Cons]) simp_all
    with loop_Cons [OF ne le Cons, of R D] Cons show ?thesis
      by simp
  qed
qed

lemma inDirectiveState_accumulates:
  assumes "unterminated (end' T) (input ctx)" and "stateBuffer ctx = []"
    and "length (input ctx) \<le> 1024"
  shows "inDirectiveState R T D ctx =
     Inr (InDirective, ctx\<lparr>input := [], stateBuffer := input ctx\<rparr>)"
proof (cases "input ctx")
  case Nil
  with assms(2) have "ctx\<lparr>input := [], stateBuffer := input ctx\<rparr> = ctx"
    by (cases ctx) simp
  with Nil show ?thesis
    by (simp add: inDirectiveState_def)
next
  case (Cons c rest)
  let ?ctx1 = "ctx\<lparr>input := rest, stateBuffer := stateBuffer ctx @ [c]\<rparr>"
  have "inDirective_loop R T D ?ctx1 =
      Inr (InDirective, ?ctx1\<lparr>input := [], stateBuffer := stateBuffer ?ctx1 @ input ?ctx1\<rparr>)"
    using assms Cons by (intro inDirective_loop_accumulates [where e = "end' T"]) simp_all
  with Cons assms(2) show ?thesis
    by (simp add: inDirectiveState_def)
qed


lemma stateBuffer_same:
  "stateBuffer ctx = b \<Longrightarrow> ctx\<lparr>stateBuffer := b\<rparr> = ctx"
  by (cases ctx) simp

lemma input_same:
  "input ctx = i \<Longrightarrow> ctx\<lparr>input := i\<rparr> = ctx"
  by (cases ctx) simp

lemma inDirectiveState_snoc:
  assumes "unterminated (end' T) p" and "length p \<le> 1024" and "stateBuffer ctx = []"
    and "input ctx = p @ c # rest"
  shows "inDirectiveState R T D ctx =
     inDirective_loop R T D (ctx\<lparr>input := rest, stateBuffer := p @ [c]\<rparr>)"
proof -
  let ?ctx0 = "ctx\<lparr>input := p\<rparr>"
  have a: "inDirectiveState R T D ?ctx0 =
      Inr (InDirective, ?ctx0\<lparr>input := [], stateBuffer := input ?ctx0\<rparr>)"
    using assms by (intro inDirectiveState_accumulates) simp_all
  have "inDirectiveState R T D ctx = inDirectiveState R T D (?ctx0\<lparr>input := input ?ctx0 @ c # rest\<rparr>)"
    using input_same [OF assms(4)] by simp
  also have "\<dots> = inDirectiveState R T D (ctx\<lparr>input := c # rest, stateBuffer := p\<rparr>)"
    unfolding inDirectiveState_append a by simp
  also have "\<dots> = inDirective_loop R T D (ctx\<lparr>input := rest, stateBuffer := p @ [c]\<rparr>)"
    by (simp add: inDirectiveState_def)
  finally show ?thesis .
qed

lemma transform_loop_opening:
  assumes "stateBuffer ctx = []" and "input ctx = start T @ ws @ body"
    and "list_all is_space ws" and "body \<noteq> []" and "\<not> is_space (hd body)"
  shows "transform_loop R T D LookingForDirective ctx =
     transform_loop R T D InDirective (ctx\<lparr>input := body\<rparr>)"
proof -
  from assms(2,4) have ne: "input ctx \<noteq> []"
    by simp
  have l: "lookingForDirectiveState T ctx =
      (WhitespaceConsumer InDirective, ctx\<lparr>input := ws @ body, stateBuffer := start T\<rparr>)"
    using assms(1,2) by (intro looking_start [where k = 0]) simp_all
  have 1: "transform_loop R T D LookingForDirective ctx =
      transform_loop R T D (WhitespaceConsumer InDirective) (ctx\<lparr>input := ws @ body\<rparr>)"
    using assms(1) by (simp add: transform_loop_step [OF ne] l stateBuffer_same)
  from assms(3,4,5) have d: "dropWhile is_space (ws @ body) = body"
    by (cases body) (auto simp: dropWhile_append list_all_iff)
  have "input (ctx\<lparr>input := ws @ body\<rparr>) \<noteq> []"
    using assms(4) by simp
  from transform_loop_step [OF this, of R T D "WhitespaceConsumer InDirective"] d assms(1,4)
  have 2: "transform_loop R T D (WhitespaceConsumer InDirective) (ctx\<lparr>input := ws @ body\<rparr>) =
      transform_loop R T D InDirective (ctx\<lparr>input := body\<rparr>)"
    by (simp add: whitespaceConsumerState_def stateBuffer_same)
  from 1 2 show ?thesis
    by simp
qed

lemma transform_loop_open:
  assumes "stateBuffer ctx = []" and "input ctx = body" and "body \<noteq> []"
    and "unterminated (end' T) body" and "length body \<le> 1024"
  shows "transform_loop R T D InDirective ctx =
     Inr (InDirective, ctx\<lparr>input := [], stateBuffer := body\<rparr>)"
proof -
  from assms have ne: "input ctx \<noteq> []"
    by simp
  have "inDirectiveState R T D ctx = Inr (InDirective, ctx\<lparr>input := [], stateBuffer := input ctx\<rparr>)"
    using assms by (intro inDirectiveState_accumulates) simp_all
  with assms(2) show ?thesis
    by (simp add: transform_loop_step [OF ne] transform_loop_Nil)
qed

lemma transform_loop_too_long:
  assumes "stateBuffer ctx = []" and "input ctx = s @ rest" and "length s = 1025"
    and "unterminated (end' T) s"
  shows "transform_loop R T D InDirective ctx = Inl DirectiveTooLong"
proof -
  from assms have ne: "input ctx \<noteq> []"
    by auto
  from assms(3) obtain p c where s: "s = p @ [c]"
    by (cases s rule: rev_cases) auto
  with assms have p: "unterminated (end' T) p" "length p \<le> 1024" "input ctx = p @ c # rest"
    "\<not> endsWith (p @ [c]) (end' T)"
    by (auto simp: unterminated_snoc)
  from assms(3) s have "1024 < length (p @ [c])"
    by simp
  with p(4) have "inDirective_loop R T D (ctx\<lparr>input := rest, stateBuffer := p @ [c]\<rparr>) =
      Inl DirectiveTooLong"
    by (intro loop_too_long) simp_all
  with inDirectiveState_snoc [OF p(1,2) assms(1) p(3), of R D] show ?thesis
    by (simp add: transform_loop_step [OF ne])
qed

lemma transform_loop_closed:
  assumes "stateBuffer ctx = []" and "input ctx = p @ [c]" and "length p \<le> 1024"
    and "unterminated (end' T) p" and "endsWith (p @ [c]) (end' T)"
  shows "transform_loop R T D InDirective ctx =
     (case getValue R D (trim (slice_to_minus (p @ [c]) (length (end' T)))) (separator T) of
        Inl e \<Rightarrow> Inl e
      | Inr v \<Rightarrow> Inr (LookingForDirective, ctx\<lparr>input := [], output' := output' ctx @ v\<rparr>))"
proof -
  from assms have ne: "input ctx \<noteq> []"
    by auto
  have "inDirectiveState R T D ctx =
      inDirective_loop R T D (ctx\<lparr>input := [], stateBuffer := p @ [c]\<rparr>)"
    using assms by (intro inDirectiveState_snoc) simp_all
  also have "\<dots> =
     (case getValue R D (trim (slice_to_minus (p @ [c]) (length (end' T)))) (separator T) of
        Inl e \<Rightarrow> Inl e
      | Inr v \<Rightarrow> Inr (LookingForDirective,
          ctx\<lparr>input := [], output' := output' ctx @ v, stateBuffer := p @ [c]\<rparr>))"
    using assms(5) by (simp add: loop_found split: sum.splits)
  finally show ?thesis
    using assms(1)
    by (simp add: transform_loop_step [OF ne] transform_loop_Nil stateBuffer_same
        split: sum.splits)
qed


lemma endsWith_last:
  assumes "endsWith q e" and "e \<noteq> []"
  shows "last e \<in> set q"
proof -
  from assms(1) have "set e \<subseteq> set q"
    by (metis endsWith_def set_drop_subset)
  with assms(2) show ?thesis
    by auto
qed

lemma unterminated_without_last:
  "e \<noteq> [] \<Longrightarrow> last e \<notin> set s \<Longrightarrow> unterminated e s"
  unfolding unterminated_iff
  by (meson endsWith_last set_mono_prefix subsetD)

lemma new_context:
  "context' new_SwapTransform = \<lparr>input = [], output' = [], stateBuffer = []\<rparr>"
  "nextState new_SwapTransform = LookingForDirective"
  by (simp_all add: new_SwapTransform_def)

lemma transform_closed:
  assumes "list_all is_space ws" and "\<not> is_space (hd (p @ [c]))" and "length p \<le> 1024"
    and "unterminated (end' T) p" and "endsWith (p @ [c]) (end' T)"
  shows "transform R T D new_SwapTransform (start T @ ws @ p @ [c]) =
     (case getValue R D (trim (slice_to_minus (p @ [c]) (length (end' T)))) (separator T) of
        Inl e \<Rightarrow> Inl e
      | Inr v \<Rightarrow> Inr (new_SwapTransform, v))"
proof -
  let ?ctx = "\<lparr>input = start T @ ws @ p @ [c], output' = [], stateBuffer = []\<rparr>"
  have "transform_loop R T D LookingForDirective ?ctx =
      transform_loop R T D InDirective (?ctx\<lparr>input := p @ [c]\<rparr>)"
    using assms(1,2) by (intro transform_loop_opening [where ws = ws]) simp_all
  also have "\<dots> =
     (case getValue R D (trim (slice_to_minus (p @ [c]) (length (end' T)))) (separator T) of
        Inl e \<Rightarrow> Inl e
      | Inr v \<Rightarrow> Inr (LookingForDirective,
          (?ctx\<lparr>input := p @ [c]\<rparr>)\<lparr>input := [],
             output' := output' (?ctx\<lparr>input := p @ [c]\<rparr>) @ v\<rparr>))"
    using assms(3,4,5) by (intro transform_loop_closed) simp_all
  finally show ?thesis
    by (simp add: transform_def new_SwapTransform_def split: sum.splits)
qed

lemma transform_open:
  assumes "list_all is_space ws" and "body \<noteq> []" and "\<not> is_space (hd body)"
    and "length body \<le> 1024" and "unterminated (end' T) body"
  shows "transform R T D new_SwapTransform (start T @ ws @ body) =
     Inr (\<lparr>nextState = InDirective,
           context' = \<lparr>input = [], output' = [], stateBuffer = body\<rparr>\<rparr>, [])"
proof -
  let ?ctx = "\<lparr>input = start T @ ws @ body, output' = [], stateBuffer = []\<rparr>"
  have "transform_loop R T D LookingForDirective ?ctx =
      transform_loop R T D InDirective (?ctx\<lparr>input := body\<rparr>)"
    using assms(1,2,3) by (intro transform_loop_opening [where ws = ws]) simp_all
  also have "\<dots> = Inr (InDirective, (?ctx\<lparr>input := body\<rparr>)\<lparr>input := [], stateBuffer := body\<rparr>)"
    using assms(2,4,5) by (intro transform_loop_open) simp_all
  finally show ?thesis
    by (simp add: transform_def new_SwapTransform_def)
qed

lemma transform_too_long:
  assumes "list_all is_space ws" and "\<not> is_space (hd body)" and "1024 < length body"
    and "unterminated (end' T) (take 1025 body)"
  shows "transform R T D new_SwapTransform (start T @ ws @ body) = Inl DirectiveTooLong"
proof -
  let ?ctx = "\<lparr>input = start T @ ws @ body, output' = [], stateBuffer = []\<rparr>"
  from assms(3) have ne: "body \<noteq> []"
    by auto
  have "transform_loop R T D LookingForDirective ?ctx =
      transform_loop R T D InDirective (?ctx\<lparr>input := body\<rparr>)"
    using assms(1,2) ne by (intro transform_loop_opening [where ws = ws]) simp_all
  also have "\<dots> = Inl DirectiveTooLong"
    using assms(3,4)
    by (intro transform_loop_too_long [where s = "take 1025 body" and rest = "drop 1025 body"])
      simp_all
  finally show ?thesis
    by (simp add: transform_def new_SwapTransform_def)
qed

lemma transform_plain:
  assumes "\<not> sublist (start T) text"
  shows "\<exists>flushed held.
     transform R T D new_SwapTransform text =
       Inr (\<lparr>nextState = LookingForDirective,
             context' = \<lparr>input = [], output' = [], stateBuffer = held\<rparr>\<rparr>, flushed) \<and>
     flushed @ held = text \<and> strict_prefix held (start T)"
proof (cases "text = []")
  case True
  from assms have "start T \<noteq> []"
    by auto
  with True show ?thesis
    by (simp add: transform_def new_SwapTransform_def transform_loop_Nil strict_prefix_def)
next
  case False
  let ?ctx = "\<lparr>input = text, output' = [], stateBuffer = []\<rparr>"
  obtain s' ctx' where l: "lookingForDirectiveState T ?ctx = (s', ctx')"
    by (cases "lookingForDirectiveState T ?ctx")
  from looking_no_start [OF l] assms obtain flushed where
    r: "s' = LookingForDirective" "input ctx' = []" "strict_prefix (stateBuffer ctx') (start T)"
      "output' ctx' = flushed" "flushed @ stateBuffer ctx' = text"
    by auto
  from False have "input ?ctx \<noteq> []"
    by simp
  from transform_loop_step [OF this, of R T D LookingForDirective] l r(1,2)
  have "transform_loop R T D LookingForDirective ?ctx = Inr (LookingForDirective, ctx')"
    by (simp add: transform_loop_Nil)
  moreover obtain held where
    c: "ctx' = \<lparr>input = [], output' = flushed, stateBuffer = held\<rparr>"
    using r(2,4) by (cases ctx') simp
  ultimately have "transform R T D new_SwapTransform text =
       Inr (\<lparr>nextState = LookingForDirective,
             context' = \<lparr>input = [], output' = [], stateBuffer = held\<rparr>\<rparr>, flushed)"
    by (simp add: transform_def new_SwapTransform_def)
  with r(3,5) c show ?thesis
    by auto
qed

section \<open>Runs and errors\<close>

lemma pipeline_concat:
  "(case transform R T D new_SwapTransform (concat chunks) of
      Inl e \<Rightarrow> snd (pipeline R T D chunks) = Inl e
    | Inr (this', pushed) \<Rightarrow>
        snd (pipeline R T D chunks) = Inr this' \<and> concat (fst (pipeline R T D chunks)) = pushed)"
  unfolding pipeline_def by (rule run_concat) simp

lemma settled_Nil [simp]: "settled R T D []"
  by (simp add: settled_def transform_Nil)

lemma transform_settled:
  assumes "settled R T D pre"
  shows "transform R T D new_SwapTransform (pre @ rest) =
     (case transform R T D new_SwapTransform rest of
        Inl e \<Rightarrow> Inl e
      | Inr (this', pushed) \<Rightarrow> Inr (this', concat (fst (pipeline R T D [pre])) @ pushed))"
proof -
  from assms obtain pushed where
    "transform R T D new_SwapTransform pre = Inr (new_SwapTransform, pushed)"
    by (auto simp: settled_def split: sum.splits)
  moreover from this have "concat (fst (pipeline R T D [pre])) = pushed"
    by (simp add: pipeline_def)
  ultimately show ?thesis
    by (simp add: transform_append split: sum.splits)
qed

lemma pipeline_settled:
  assumes "settled R T D pre" and "concat chunks = pre @ rest"
  shows "(case transform R T D new_SwapTransform rest of
      Inl e \<Rightarrow> snd (pipeline R T D chunks) = Inl e
    | Inr (this', pushed) \<Rightarrow>
        snd (pipeline R T D chunks) = Inr this' \<and>
        concat (fst (pipeline R T D chunks)) = concat (fst (pipeline R T D [pre])) @ pushed)"
  using pipeline_concat [of R T D chunks] transform_settled [OF assms(1), of rest] assms(2)
  by (auto split: sum.splits)

lemma slice_to_minus_end:
  "e \<noteq> [] \<Longrightarrow> slice_to_minus (raw @ e) (length e) = raw"
  by (simp add: slice_to_minus_def)

lemma endsWith_append [simp]: "endsWith (raw @ e) e"
  by (simp add: endsWith_def)

lemma inDirective_loop_errors:
  "inDirective_loop R T D ctx = Inl e \<Longrightarrow>
     e = DirectiveTooLong \<or> (\<exists>p. e = IndexIntoLeaf p) \<or> (\<exists>k p. e = UnknownKey k p) \<or>
     (\<exists>p. e = NotALeaf p)"
proof (induction R T D ctx rule: inDirective_loop.induct)
  case (1 R T D ctx)
  show ?case
  proof (cases "endsWith (stateBuffer ctx) (end' T)")
    case True
    with "1.prems" show ?thesis
      by (auto simp: loop_found split: sum.splits dest: getValue_errors)
  next
    case False
    show ?thesis
    proof (cases "1024 < length (stateBuffer ctx)")
      case True
      with False "1.prems" show ?thesis
        by (simp add: loop_too_long)
    next
      case le: False
      show ?thesis
      proof (cases "input ctx")
        case Nil
        with False le "1.prems" show ?thesis
          by (simp add: loop_Nil)
      next
        case (Cons c rest)
        with "1.IH" [OF False le Cons] "1.prems" loop_Cons [OF False le Cons, of R D]
        show ?thesis
          by simp
      qed
    qed
  qed
qed

lemma call_errors:
  "call R T D s ctx = Inl e \<Longrightarrow>
     e = DirectiveTooLong \<or> (\<exists>p. e = IndexIntoLeaf p) \<or> (\<exists>k p. e = UnknownKey k p) \<or>
     (\<exists>p. e = NotALeaf p)"
  by (cases s)
    (auto simp: inDirectiveState_def split: list.splits dest!: inDirective_loop_errors)

lemma transform_loop_errors:
  "transform_loop R T D s ctx = Inl e \<Longrightarrow>
     e = DirectiveTooLong \<or> (\<exists>p. e = IndexIntoLeaf p) \<or> (\<exists>k p. e = UnknownKey k p) \<or>
     (\<exists>p. e = NotALeaf p)"
proof (induction R T D s ctx rule: transform_loop.induct)
  case (1 R T D s ctx)
  show ?case
  proof (cases "input ctx = []")
    case True
    with "1.prems" show ?thesis
      by (simp add: transform_loop_Nil)
  next
    case False
    show ?thesis
    proof (cases "call R T D s ctx")
      case (Inl e')
      with "1.prems" False have "e' = e"
        by (simp add: transform_loop_step)
      with Inl show ?thesis
        by (auto dest: call_errors)
    next
      case (Inr q)
      then obtain s' ctx' where c: "call R T D s ctx = Inr (s', ctx')"
        by (cases q) simp
      show ?thesis
      proof (cases "s' = s")
        case True
        with "1.IH"(2) [OF False c refl] "1.prems" False c show ?thesis
          by (simp add: transform_loop_step)
      next
        case neq: False
        with "1.IH"(1) [OF False c refl] "1.prems" False c show ?thesis
          by (simp add: transform_loop_step)
      qed
    qed
  qed
qed

lemma transform_errors:
  "transform R T D this chunk = Inl e \<Longrightarrow>
     e = DirectiveTooLong \<or> (\<exists>p. e = IndexIntoLeaf p) \<or> (\<exists>k p. e = UnknownKey k p) \<or>
     (\<exists>p. e = NotALeaf p)"
  by (auto simp: transform_def split: sum.splits dest!: transform_loop_errors)

lemma run_error:
  "snd (run R T D this chunks) = Inl e \<Longrightarrow>
     \<exists>before chunk later this1.
       chunks = before @ chunk # later \<and>
       run R T D this before = (fst (run R T D this chunks), Inr this1) \<and>
       transform R T D this1 chunk = Inl e"
proof (induction chunks arbitrary: this)
  case Nil
  then show ?case by simp
next
  case (Cons c cs)
  show ?case
  proof (cases "transform R T D this c")
    case (Inl e')
    with Cons.prems have "c # cs = [] @ c # cs \<and>
        run R T D this [] = (fst (run R T D this (c # cs)), Inr this) \<and>
        transform R T D this c = Inl e"
      by simp
    then show ?thesis
      by blast
  next
    case (Inr q)
    then obtain this1 p1 where t: "transform R T D this c = Inr (this1, p1)"
      by (cases q) simp
    with Cons.prems have "snd (run R T D this1 cs) = Inl e"
      by (simp split: prod.splits)
    from Cons.IH [OF this] obtain before chunk later this2 where
      r: "cs = before @ chunk # later"
        "run R T D this1 before = (fst (run R T D this1 cs), Inr this2)"
        "transform R T D this2 chunk = Inl e"
      by blast
    with t have "c # cs = (c # before) @ chunk # later \<and>
        run R T D this (c # before) = (fst (run R T D this (c # cs)), Inr this2) \<and>
        transform R T D this2 chunk = Inl e"
      by (simp split: prod.splits)
    then show ?thesis
      by blast
  qed
qed

lemma run_length:
  "run R T D this chunks = (pushed, Inr this1) \<Longrightarrow> length pushed = length chunks"
  by (induction chunks arbitrary: this pushed) (auto split: sum.splits prod.splits)

text \<open>The buffer fits the state function, wherever the input is cut.\<close>

lemma call_fits:
  assumes "fits T s (stateBuffer ctx)" and "call R T D s ctx = Inr (s', ctx')"
  shows "if s' = s then fits T s (stateBuffer ctx') else fits T s' []"
proof (cases s)
  case LookingForDirective
  with assms have l: "lookingForDirectiveState T ctx = (s', ctx')"
    and p: "prefix (stateBuffer ctx) (start T)"
    by (simp_all add: fits_def)
  from lookingForDirectiveState_prefix [OF l p] LookingForDirective show ?thesis
    by (auto simp: fits_def strict_prefix_def)
next
  case InDirective
  with assms(2) have "inDirectiveState R T D ctx = Inr (s', ctx')"
    by simp
  then have "s' = InDirective \<or> s' = LookingForDirective"
    by (auto simp: inDirectiveState_def split: list.splits dest: inDirective_loop_result)
  with InDirective show ?thesis
    by (auto simp: fits_def)
next
  case (WhitespaceConsumer n)
  with assms show ?thesis
    by (auto simp: fits_def whitespaceConsumerState_def Let_def split: if_splits)
qed

lemma transform_loop_fits:
  "fits T s (stateBuffer ctx) \<Longrightarrow> transform_loop R T D s ctx = Inr (s1, ctx1) \<Longrightarrow>
   fits T s1 (stateBuffer ctx1)"
proof (induction R T D s ctx rule: transform_loop.induct)
  case (1 R T D s ctx)
  show ?case
  proof (cases "input ctx = []")
    case True
    with "1.prems" show ?thesis
      by (simp add: transform_loop_Nil)
  next
    case False
    with "1.prems"(2) obtain s' ctx' where c: "call R T D s ctx = Inr (s', ctx')"
      by (auto simp: transform_loop_step split: sum.splits)
    show ?thesis
    proof (cases "s' = s")
      case True
      with "1.prems"(2) False c have "transform_loop R T D s ctx' = Inr (s1, ctx1)"
        by (simp add: transform_loop_step)
      moreover from call_fits [OF "1.prems"(1) c] True have "fits T s (stateBuffer ctx')"
        by simp
      ultimately show ?thesis
        using "1.IH"(2) [OF False c refl] True by simp
    next
      case neq: False
      with "1.prems"(2) False c
      have "transform_loop R T D s' (ctx'\<lparr>stateBuffer := []\<rparr>) = Inr (s1, ctx1)"
        by (simp add: transform_loop_step)
      moreover from call_fits [OF "1.prems"(1) c] neq
      have "fits T s' (stateBuffer (ctx'\<lparr>stateBuffer := []\<rparr>))"
        by simp
      ultimately show ?thesis
        using "1.IH"(1) [OF False c refl neq] by simp
    qed
  qed
qed

lemma transform_fits:
  "fits T (nextState this) (stateBuffer (context' this)) \<Longrightarrow>
   transform R T D this chunk = Inr (this', pushed) \<Longrightarrow>
   fits T (nextState this') (stateBuffer (context' this'))"
proof -
  assume f: "fits T (nextState this) (stateBuffer (context' this))"
    and t: "transform R T D this chunk = Inr (this', pushed)"
  from t obtain s1 ctx1 where
    l: "transform_loop R T D (nextState this) ((context' this)\<lparr>input := chunk\<rparr>) = Inr (s1, ctx1)"
    and e: "this' = \<lparr>nextState = s1, context' = ctx1\<lparr>output' := []\<rparr>\<rparr>"
    by (auto simp: transform_def split: sum.splits)
  from f have "fits T (nextState this) (stateBuffer ((context' this)\<lparr>input := chunk\<rparr>))"
    by simp
  from transform_loop_fits [OF this l] e show ?thesis
    by simp
qed

lemma run_fits:
  "fits T (nextState this) (stateBuffer (context' this)) \<Longrightarrow>
   snd (run R T D this chunks) = Inr this' \<Longrightarrow>
   fits T (nextState this') (stateBuffer (context' this'))"
proof (induction chunks arbitrary: this)
  case Nil
  then show ?case by simp
next
  case (Cons c cs)
  from Cons.prems(2) obtain this1 p1 where t: "transform R T D this c = Inr (this1, p1)"
    by (cases "transform R T D this c") auto
  with Cons.prems(2) have "snd (run R T D this1 cs) = Inr this'"
    by (simp split: prod.splits)
  with Cons.IH [OF transform_fits [OF Cons.prems(1) t]] show ?case
    by simp
qed

lemma pipeline_fits:
  "snd (pipeline R T D chunks) = Inr this' \<Longrightarrow>
   fits T (nextState this') (stateBuffer (context' this'))"
  unfolding pipeline_def
  by (rule run_fits) (simp_all add: fits_def new_SwapTransform_def)

section \<open>Claims\<close>

text \<open>
  The statements hold in every runtime \<open>R\<close>. The instances stated after a theorem are taken
  in the runtime whose values have no properties, \<open>\<lambda>names. Nullish\<close>; none of them reads
  from a value of the runtime.
\<close>

text \<open>
  C1. For every template and data tree, and every text on which the run succeeds, all ways
  of splitting the text into chunks succeed and push the same text in total: two chunk
  lists with the same concatenation give the same concatenated output. The template string
  \<open>>>< . <<>\<close> parses to the tokens \<open>>><\<close>, \<open>.\<close> and \<open><<>\<close>, and with it and the data
  \<open>{"config":{"graphics":{"framerate":"60"}}}\<close> the text
  \<open>The frame rate is >><config.graphics.framerate<<>!\<close>, fed one character per chunk, gives
  \<open>The frame rate is 60!\<close>.
\<close>

theorem chunk_splitting_independent:
  "(\<forall>chunks1 chunks2.
      concat chunks1 = concat chunks2 \<and> succeeds (pipeline R T D chunks1) \<longrightarrow>
      succeeds (pipeline R T D chunks2) \<and>
      concat (fst (pipeline R T D chunks1)) = concat (fst (pipeline R T D chunks2))) \<and>
   fromString ''>>< . <<>'' = Inr \<lparr>start = ''>><'', separator = ''.'', end' = ''<<>''\<rparr> \<and>
   succeeds (pipeline R \<lparr>start = ''>><'', separator = ''.'', end' = ''<<>''\<rparr>
      [(''config'', Node [(''graphics'', Node [(''framerate'', Leaf ''60'')])])]
      (map (\<lambda>c. [c]) ''The frame rate is >><config.graphics.framerate<<>!'')) \<and>
   concat (fst (pipeline R \<lparr>start = ''>><'', separator = ''.'', end' = ''<<>''\<rparr>
      [(''config'', Node [(''graphics'', Node [(''framerate'', Leaf ''60'')])])]
      (map (\<lambda>c. [c]) ''The frame rate is >><config.graphics.framerate<<>!''))) =
     ''The frame rate is 60!''"
proof (intro conjI allI impI)
  fix chunks1 chunks2
  assume a: "concat chunks1 = concat chunks2 \<and> succeeds (pipeline R T D chunks1)"
  then have eq: "snd (pipeline R T D chunks1) = snd (pipeline R T D chunks2)"
    unfolding pipeline_def by (intro run_chunking(1)) simp_all
  with a show "succeeds (pipeline R T D chunks2)"
    by (simp add: succeeds_def)
  from a show "concat (fst (pipeline R T D chunks1)) = concat (fst (pipeline R T D chunks2))"
    unfolding pipeline_def by (intro run_chunking(2)) simp_all
next
  show "fromString ''>>< . <<>'' = Inr \<lparr>start = ''>><'', separator = ''.'', end' = ''<<>''\<rparr>"
    by (simp add: fromString_def trim_def is_space_def)
next
  show "succeeds (pipeline R \<lparr>start = ''>><'', separator = ''.'', end' = ''<<>''\<rparr>
      [(''config'', Node [(''graphics'', Node [(''framerate'', Leaf ''60'')])])]
      (map (\<lambda>c. [c]) ''The frame rate is >><config.graphics.framerate<<>!''))"
    by code_simp
next
  show "concat (fst (pipeline R \<lparr>start = ''>><'', separator = ''.'', end' = ''<<>''\<rparr>
      [(''config'', Node [(''graphics'', Node [(''framerate'', Leaf ''60'')])])]
      (map (\<lambda>c. [c]) ''The frame rate is >><config.graphics.framerate<<>!''))) =
     ''The frame rate is 60!''"
    by code_simp
qed

theorem chunk_splitting_independent_witness:
  "concat [''a <!color.red!> b''] = concat [''a <'', ''!col'', [], ''or.red!'', ''> b''] \<and>
   succeeds (pipeline (\<lambda>names. Nullish) \<lparr>start = ''<!'', separator = ''.'', end' = ''!>''\<rparr>
      [(''color'', Node [(''red'', Leaf ''#ff0000'')])] [''a <!color.red!> b'']) \<and>
   succeeds (pipeline (\<lambda>names. Nullish) \<lparr>start = ''<!'', separator = ''.'', end' = ''!>''\<rparr>
      [(''color'', Node [(''red'', Leaf ''#ff0000'')])]
      [''a <'', ''!col'', [], ''or.red!'', ''> b'']) \<and>
   concat (fst (pipeline (\<lambda>names. Nullish) \<lparr>start = ''<!'', separator = ''.'', end' = ''!>''\<rparr>
      [(''color'', Node [(''red'', Leaf ''#ff0000'')])]
      [''a <'', ''!col'', [], ''or.red!'', ''> b''])) = ''a #ff0000 b''"
proof -
  let ?R = "\<lambda>names. Nullish :: read"
  let ?T = "\<lparr>start = ''<!'', separator = ''.'', end' = ''!>''\<rparr>"
  let ?D = "[(''color'', Node [(''red'', Leaf ''#ff0000'')])]"
  have h1: "concat [''a <!color.red!> b''] = concat [''a <'', ''!col'', [], ''or.red!'', ''> b'']"
    by simp
  have h2: "succeeds (pipeline ?R ?T ?D [''a <!color.red!> b''])"
    by code_simp
  have v: "concat (fst (pipeline ?R ?T ?D [''a <!color.red!> b''])) = ''a #ff0000 b''"
    by code_simp
  from chunk_splitting_independent [of ?R ?T ?D, THEN conjunct1, rule_format, OF conjI, OF h1 h2]
  show ?thesis
    using h1 h2 v by simp
qed

text \<open>
  C3. \<open>getValue\<close> looks a segment up with \<open>value[segment]\<close>, which finds the own keys of an
  object and also the properties that it inherits. For the tree \<open>{"color":{"red":"#ff0000"}}\<close>
  and separator \<open>.\<close>, in every runtime: the key \<open>constructor\<close> is absent from the root mapping,
  yet the path \<open>constructor\<close> does not fail with \<open>UnknownKey\<close>; the read gives the inherited
  function and the path fails with \<open>NotALeaf\<close>. So does \<open>color.toString\<close>, one level down. The
  path \<open>constructor.name\<close> fails with \<open>UnknownKey\<close> only if the runtime has no \<open>name\<close> on that
  function; where the read gives a string, as it gives \<open>Object\<close> in ECMAScript, \<open>getValue\<close>
  returns this string as the value of the path. On the four paths of the example the
  result is the claimed one: \<open>color.red\<close> gives \<open>#ff0000\<close>, \<open>color\<close> fails with \<open>NotALeaf\<close>,
  \<open>color.blue\<close> with \<open>UnknownKey\<close> of \<open>blue\<close>, \<open>color.red.dark\<close> with \<open>IndexIntoLeaf\<close>.
\<close>

theorem getValue_reads_inherited_property:
  "map_of [(''color'', Node [(''red'', Leaf ''#ff0000'')])] ''constructor'' = None \<and>
   getValue R [(''color'', Node [(''red'', Leaf ''#ff0000'')])] ''constructor'' ''.'' =
     Inl (NotALeaf ''constructor'') \<and>
   map_of [(''red'', Leaf ''#ff0000'')] ''toString'' = None \<and>
   getValue R [(''color'', Node [(''red'', Leaf ''#ff0000'')])] ''color.toString'' ''.'' =
     Inl (NotALeaf ''color.toString'') \<and>
   getValue R [(''color'', Node [(''red'', Leaf ''#ff0000'')])] ''constructor.name'' ''.'' =
     (case R [''constructor'', ''name''] of
        Nullish \<Rightarrow> Inl (UnknownKey ''name'' ''constructor.name'')
      | StringValue v \<Rightarrow> Inr v
      | OtherValue \<Rightarrow> Inl (NotALeaf ''constructor.name'')) \<and>
   getValue R [(''color'', Node [(''red'', Leaf ''#ff0000'')])] ''color.red'' ''.'' =
     Inr ''#ff0000'' \<and>
   getValue R [(''color'', Node [(''red'', Leaf ''#ff0000'')])] ''color'' ''.'' =
     Inl (NotALeaf ''color'') \<and>
   getValue R [(''color'', Node [(''red'', Leaf ''#ff0000'')])] ''color.blue'' ''.'' =
     Inl (UnknownKey ''blue'' ''color.blue'') \<and>
   getValue R [(''color'', Node [(''red'', Leaf ''#ff0000'')])] ''color.red.dark'' ''.'' =
     Inl (IndexIntoLeaf ''color.red.dark'')"
  by (simp add: getValue_def split_def objectPrototype_def split: read.splits)

text \<open>
  C8. \<open>fromString\<close> trims the string and splits it at the runs of whitespace; the tokens
  are the words of the string (one empty token when it has no word), each non-empty and
  free of whitespace. With exactly three tokens it returns the template with these as
  start, separator and end, in this order; with fewer it fails with the too-few-tokens
  error, whose message contains the string given; with more it fails with the
  too-many-tokens error.
\<close>

theorem fromString_three_tokens:
  "split_ws [] (trim raw) = (if words_of raw = [] then [[]] else words_of raw) \<and>
   (\<forall>w \<in> set (words_of raw). w \<noteq> [] \<and> (\<forall>x \<in> set w. \<not> is_space x)) \<and>
   concat (words_of raw) = filter (\<lambda>x. \<not> is_space x) raw \<and>
   (length (split_ws [] (trim raw)) = 3 \<longrightarrow>
      fromString raw =
        Inr \<lparr>start = split_ws [] (trim raw) ! 0, separator = split_ws [] (trim raw) ! 1,
             end' = split_ws [] (trim raw) ! 2\<rparr>) \<and>
   (length (split_ws [] (trim raw)) < 3 \<longrightarrow>
      fromString raw = Inl (TooFewTokens raw) \<and> sublist raw (message (TooFewTokens raw))) \<and>
   (length (split_ws [] (trim raw)) > 3 \<longrightarrow> fromString raw = Inl (TooManyTokens raw))"
proof (intro conjI impI)
  show "split_ws [] (trim raw) = (if words_of raw = [] then [[]] else words_of raw)"
    by (rule split_ws_trim)
  show "\<forall>w \<in> set (words_of raw). w \<noteq> [] \<and> (\<forall>x \<in> set w. \<not> is_space x)"
    by (rule words_of_tokens)
  show "concat (words_of raw) = filter (\<lambda>x. \<not> is_space x) raw"
    by (rule concat_words_of)
next
  assume "length (split_ws [] (trim raw)) = 3"
  then obtain a b c where "split_ws [] (trim raw) = [a, b, c]"
    by (auto simp: length_Suc_conv numeral_3_eq_3)
  then show "fromString raw =
        Inr \<lparr>start = split_ws [] (trim raw) ! 0, separator = split_ws [] (trim raw) ! 1,
             end' = split_ws [] (trim raw) ! 2\<rparr>"
    by (simp add: fromString_def)
next
  assume "length (split_ws [] (trim raw)) < 3"
  then show "fromString raw = Inl (TooFewTokens raw)"
    by (auto simp: fromString_def split: list.splits)
next
  show "sublist raw (message (TooFewTokens raw))"
    by (rule message_names)
next
  assume "length (split_ws [] (trim raw)) > 3"
  then show "fromString raw = Inl (TooManyTokens raw)"
    by (auto simp: fromString_def split: list.splits)
qed

theorem fromString_three_tokens_witness:
  "words_of ''   <!   .  !>   '' = [''<!'', ''.'', ''!>''] \<and>
   length (split_ws [] (trim ''   <!   .  !>   '')) = 3 \<and>
   fromString ''   <!   .  !>   '' = Inr \<lparr>start = ''<!'', separator = ''.'', end' = ''!>''\<rparr> \<and>
   length (split_ws [] (trim ''<!>'')) < 3 \<and>
   fromString ''<!>'' = Inl (TooFewTokens ''<!>'') \<and>
   length (split_ws [] (trim ''<! . !> !>'')) > 3 \<and>
   fromString ''<! . !> !>'' = Inl (TooManyTokens ''<! . !> !>'')"
proof -
  let ?R = "\<lambda>names. Nullish :: read"
  have t1: "split_ws [] (trim ''   <!   .  !>   '') = [''<!'', ''.'', ''!>'']"
    by (simp add: trim_def is_space_def)
  have t2: "split_ws [] (trim ''<!>'') = [''<!>'']"
    by (simp add: trim_def is_space_def)
  have t3: "split_ws [] (trim ''<! . !> !>'') = [''<!'', ''.'', ''!>'', ''!>'']"
    by (simp add: trim_def is_space_def)
  have l1: "length (split_ws [] (trim ''   <!   .  !>   '')) = 3"
    by (simp only: t1) simp
  have l2: "length (split_ws [] (trim ''<!>'')) < 3"
    by (simp only: t2) simp
  have l3: "length (split_ws [] (trim ''<! . !> !>'')) > 3"
    by (simp only: t3) simp
  note c1 = fromString_three_tokens [of "''   <!   .  !>   ''"]
  note c2 = fromString_three_tokens [of "''<!>''"]
  note c3 = fromString_three_tokens [of "''<! . !> !>''"]
  from c1 t1 have w: "words_of ''   <!   .  !>   '' = [''<!'', ''.'', ''!>'']"
    by (auto split: if_splits)
  from c1 [THEN conjunct2, THEN conjunct2, THEN conjunct2, THEN conjunct1, rule_format, OF l1] t1
  have f1: "fromString ''   <!   .  !>   '' =
      Inr \<lparr>start = ''<!'', separator = ''.'', end' = ''!>''\<rparr>"
    by simp
  from c2 [THEN conjunct2, THEN conjunct2, THEN conjunct2, THEN conjunct2, THEN conjunct1,
      rule_format, OF l2]
  have f2: "fromString ''<!>'' = Inl (TooFewTokens ''<!>'')"
    by simp
  from c3 [THEN conjunct2, THEN conjunct2, THEN conjunct2, THEN conjunct2, THEN conjunct2,
      rule_format, OF l3]
  have f3: "fromString ''<! . !> !>'' = Inl (TooManyTokens ''<! . !> !>'')" .
  from w l1 f1 l2 f2 l3 f3 show ?thesis
    by (intro conjI)
qed

text \<open>
  C9. Let the scanner be looking for a directive with nothing buffered (after a text \<open>pre\<close>
  that leaves it so), and let the input continue with the start token, any whitespace \<open>ws\<close>,
  and \<open>raw\<close> followed by the end token, where \<open>raw\<close> followed by the end token begins with a
  character that is not whitespace, has no earlier point at which it ends with the end
  token, and is within the length limit. Then, however the text is split into chunks, the
  whitespace is skipped and the run ends as \<open>getValue\<close> on the trimmed \<open>raw\<close> does: with its
  error, or with its value pushed after the output of \<open>pre\<close> and the scanner looking for a
  directive again. With the template \<open><! . !>\<close>, the directive \<open><!  color.red   !>\<close> resolves
  the path \<open>color.red\<close>.
\<close>

theorem directive_path_trimmed:
  "(settled R T D pre \<and> list_all is_space ws \<and> end' T \<noteq> [] \<and>
    \<not> is_space (hd (raw @ end' T)) \<and> unterminated (end' T) (butlast (raw @ end' T)) \<and>
    length (raw @ end' T) \<le> 1025 \<and> concat chunks = pre @ start T @ ws @ raw @ end' T \<longrightarrow>
    (case getValue R D (trim raw) (separator T) of
       Inl e \<Rightarrow> snd (pipeline R T D chunks) = Inl e
     | Inr v \<Rightarrow>
         snd (pipeline R T D chunks) = Inr new_SwapTransform \<and>
         concat (fst (pipeline R T D chunks)) = concat (fst (pipeline R T D [pre])) @ v)) \<and>
   trim ''color.red   '' = ''color.red'' \<and>
   pipeline R \<lparr>start = ''<!'', separator = ''.'', end' = ''!>''\<rparr>
     [(''color'', Node [(''red'', Leaf ''#ff0000'')])] [''<!  color.red   !>''] =
     ([''#ff0000''], Inr new_SwapTransform)"
proof (intro conjI impI)
  assume a: "settled R T D pre \<and> list_all is_space ws \<and> end' T \<noteq> [] \<and>
    \<not> is_space (hd (raw @ end' T)) \<and> unterminated (end' T) (butlast (raw @ end' T)) \<and>
    length (raw @ end' T) \<le> 1025 \<and> concat chunks = pre @ start T @ ws @ raw @ end' T"
  let ?body = "raw @ end' T"
  from a have ne: "?body \<noteq> []"
    by simp
  then have b: "?body = butlast ?body @ [last ?body]"
    by simp
  have "transform R T D new_SwapTransform (start T @ ws @ butlast ?body @ [last ?body]) =
     (case getValue R D (trim (slice_to_minus (butlast ?body @ [last ?body]) (length (end' T))))
             (separator T) of
        Inl e \<Rightarrow> Inl e
      | Inr v \<Rightarrow> Inr (new_SwapTransform, v))"
  proof (rule transform_closed)
    show "list_all is_space ws" "unterminated (end' T) (butlast ?body)"
      using a by simp_all
    show "\<not> is_space (hd (butlast ?body @ [last ?body]))"
      using a b by simp
    show "length (butlast ?body) \<le> 1024"
      using a by auto
    show "endsWith (butlast ?body @ [last ?body]) (end' T)"
      using b by simp
  qed
  with b a have t: "transform R T D new_SwapTransform (start T @ ws @ raw @ end' T) =
     (case getValue R D (trim raw) (separator T) of
        Inl e \<Rightarrow> Inl e
      | Inr v \<Rightarrow> Inr (new_SwapTransform, v))"
    by (simp add: slice_to_minus_end)
  from a have "settled R T D pre" "concat chunks = pre @ (start T @ ws @ raw @ end' T)"
    by simp_all
  from pipeline_settled [OF this] t
  show "case getValue R D (trim raw) (separator T) of
       Inl e \<Rightarrow> snd (pipeline R T D chunks) = Inl e
     | Inr v \<Rightarrow>
         snd (pipeline R T D chunks) = Inr new_SwapTransform \<and>
         concat (fst (pipeline R T D chunks)) = concat (fst (pipeline R T D [pre])) @ v"
    by (auto split: sum.splits)
next
  show "trim ''color.red   '' = ''color.red''"
    by (simp add: trim_def is_space_def)
next
  show "pipeline R \<lparr>start = ''<!'', separator = ''.'', end' = ''!>''\<rparr>
     [(''color'', Node [(''red'', Leaf ''#ff0000'')])] [''<!  color.red   !>''] =
     ([''#ff0000''], Inr new_SwapTransform)"
    by code_simp
qed


theorem directive_path_trimmed_witness:
  "settled (\<lambda>names. Nullish) \<lparr>start = ''<!'', separator = ''.'', end' = ''!>''\<rparr>
     [(''color'', Node [(''red'', Leaf ''#ff0000'')])] ''The color is '' \<and>
   list_all is_space ''  '' \<and>
   \<not> is_space (hd (''color.red   '' @ ''!>'')) \<and>
   unterminated ''!>'' (butlast (''color.red   '' @ ''!>'')) \<and>
   concat [''The color is <'', ''! '', '' color.red  '', '' !>''] =
     ''The color is '' @ ''<!'' @ ''  '' @ ''color.red   '' @ ''!>'' \<and>
   getValue (\<lambda>names. Nullish) [(''color'', Node [(''red'', Leaf ''#ff0000'')])] (trim ''color.red   '') ''.'' =
     Inr ''#ff0000'' \<and>
   snd (pipeline (\<lambda>names. Nullish) \<lparr>start = ''<!'', separator = ''.'', end' = ''!>''\<rparr>
     [(''color'', Node [(''red'', Leaf ''#ff0000'')])]
     [''The color is <'', ''! '', '' color.red  '', '' !>'']) = Inr new_SwapTransform \<and>
   concat (fst (pipeline (\<lambda>names. Nullish) \<lparr>start = ''<!'', separator = ''.'', end' = ''!>''\<rparr>
     [(''color'', Node [(''red'', Leaf ''#ff0000'')])]
     [''The color is <'', ''! '', '' color.red  '', '' !>''])) = ''The color is #ff0000''"
proof -
  let ?R = "\<lambda>names. Nullish :: read"
  let ?T = "\<lparr>start = ''<!'', separator = ''.'', end' = ''!>''\<rparr>"
  let ?D = "[(''color'', Node [(''red'', Leaf ''#ff0000'')])]"
  let ?chunks = "[''The color is <'', ''! '', '' color.red  '', '' !>'']"
  have h1: "settled ?R ?T ?D ''The color is ''"
    by code_simp
  have h2: "list_all is_space ''  ''"
    by (simp add: is_space_def)
  have h3: "\<not> is_space (hd (''color.red   '' @ ''!>''))"
    by (simp add: is_space_def)
  have h4: "unterminated ''!>'' (butlast (''color.red   '' @ ''!>''))"
    by code_simp
  have h5: "concat ?chunks = ''The color is '' @ ''<!'' @ ''  '' @ ''color.red   '' @ ''!>''"
    by simp
  have v: "getValue ?R ?D (trim ''color.red   '') ''.'' = Inr ''#ff0000''"
    by (simp add: trim_def is_space_def getValue_def split_def)
  have p: "concat (fst (pipeline ?R ?T ?D [''The color is ''])) = ''The color is ''"
    by code_simp
  have "settled ?R ?T ?D ''The color is '' \<and> list_all is_space ''  '' \<and> end' ?T \<noteq> [] \<and>
    \<not> is_space (hd (''color.red   '' @ end' ?T)) \<and>
    unterminated (end' ?T) (butlast (''color.red   '' @ end' ?T)) \<and>
    length (''color.red   '' @ end' ?T) \<le> 1025 \<and>
    concat ?chunks = ''The color is '' @ start ?T @ ''  '' @ ''color.red   '' @ end' ?T"
    using h1 h2 h3 h4 by simp
  from directive_path_trimmed [where R = ?R and T = ?T and D = ?D, THEN conjunct1, rule_format, OF this] v p
  have "snd (pipeline ?R ?T ?D ?chunks) = Inr new_SwapTransform \<and>
        concat (fst (pipeline ?R ?T ?D ?chunks)) = ''The color is #ff0000''"
    by simp
  with h1 h2 h3 h4 h5 v show ?thesis
    by simp
qed

text \<open>
  C5. If, after the start token and the whitespace behind it, more than 1024 characters
  follow and the first 1025 of them at no point end with the end token, the run fails with
  \<open>DirectiveTooLong\<close>, for every splitting into chunks and whatever follows. If what follows
  reaches the end token for the first time within 1024 characters, the run does not fail with
  \<open>DirectiveTooLong\<close>.
\<close>

theorem directive_too_long:
  "(settled R T D pre \<and> list_all is_space ws \<and> \<not> is_space (hd body) \<and> 1024 < length body \<and>
    unterminated (end' T) (take 1025 body) \<and> concat chunks = pre @ start T @ ws @ body \<longrightarrow>
    snd (pipeline R T D chunks) = Inl DirectiveTooLong) \<and>
   (settled R T D pre \<and> list_all is_space ws \<and> body \<noteq> [] \<and> \<not> is_space (hd body) \<and>
    length body \<le> 1024 \<and> unterminated (end' T) (butlast body) \<and> endsWith body (end' T) \<and>
    concat chunks = pre @ start T @ ws @ body \<longrightarrow>
    snd (pipeline R T D chunks) \<noteq> Inl DirectiveTooLong)"
proof (intro conjI impI)
  assume a: "settled R T D pre \<and> list_all is_space ws \<and> \<not> is_space (hd body) \<and>
    1024 < length body \<and> unterminated (end' T) (take 1025 body) \<and>
    concat chunks = pre @ start T @ ws @ body"
  then have "transform R T D new_SwapTransform (start T @ ws @ body) = Inl DirectiveTooLong"
    by (intro transform_too_long) simp_all
  moreover from a have "settled R T D pre" "concat chunks = pre @ (start T @ ws @ body)"
    by simp_all
  from pipeline_settled [OF this]
  have "case transform R T D new_SwapTransform (start T @ ws @ body) of
      Inl e \<Rightarrow> snd (pipeline R T D chunks) = Inl e
    | Inr (this', pushed) \<Rightarrow>
        snd (pipeline R T D chunks) = Inr this' \<and>
        concat (fst (pipeline R T D chunks)) = concat (fst (pipeline R T D [pre])) @ pushed" .
  ultimately show "snd (pipeline R T D chunks) = Inl DirectiveTooLong"
    by simp
next
  assume a: "settled R T D pre \<and> list_all is_space ws \<and> body \<noteq> [] \<and> \<not> is_space (hd body) \<and>
    length body \<le> 1024 \<and> unterminated (end' T) (butlast body) \<and> endsWith body (end' T) \<and>
    concat chunks = pre @ start T @ ws @ body"
  then have b: "body = butlast body @ [last body]"
    by simp
  have "transform R T D new_SwapTransform (start T @ ws @ butlast body @ [last body]) =
     (case getValue R D (trim (slice_to_minus (butlast body @ [last body]) (length (end' T))))
             (separator T) of
        Inl e \<Rightarrow> Inl e
      | Inr v \<Rightarrow> Inr (new_SwapTransform, v))"
  proof (rule transform_closed)
    show "list_all is_space ws" "unterminated (end' T) (butlast body)"
      using a by simp_all
    show "\<not> is_space (hd (butlast body @ [last body]))"
      using a b by simp
    show "length (butlast body) \<le> 1024"
      using a by auto
    show "endsWith (butlast body @ [last body]) (end' T)"
      using a b by simp
  qed
  with b have t: "transform R T D new_SwapTransform (start T @ ws @ body) =
     (case getValue R D (trim (slice_to_minus body (length (end' T)))) (separator T) of
        Inl e \<Rightarrow> Inl e
      | Inr v \<Rightarrow> Inr (new_SwapTransform, v))"
    by simp
  from a have "settled R T D pre" "concat chunks = pre @ (start T @ ws @ body)"
    by simp_all
  from pipeline_settled [OF this] t
    getValue_errors [of R D "trim (slice_to_minus body (length (end' T)))" "separator T"]
  show "snd (pipeline R T D chunks) \<noteq> Inl DirectiveTooLong"
    by (auto split: sum.splits)
qed


theorem directive_too_long_witness:
  "list_all is_space '' '' \<and>
   1024 < length (replicate 1025 (CHR ''a'') @ ''!>'') \<and>
   unterminated ''!>'' (take 1025 (replicate 1025 (CHR ''a'') @ ''!>'')) \<and>
   snd (pipeline (\<lambda>names. Nullish) \<lparr>start = ''<!'', separator = ''.'', end' = ''!>''\<rparr> []
     [''<! '', replicate 1000 (CHR ''a''), replicate 25 (CHR ''a''), ''!>'']) =
     Inl DirectiveTooLong \<and>
   unterminated ''!>'' (butlast ''a.b !>'') \<and> endsWith ''a.b !>'' ''!>'' \<and>
   snd (pipeline (\<lambda>names. Nullish) \<lparr>start = ''<!'', separator = ''.'', end' = ''!>''\<rparr> []
     [''<'', ''! a.b'', '' !>'']) \<noteq> Inl DirectiveTooLong"
proof -
  let ?R = "\<lambda>names. Nullish :: read"
  let ?T = "\<lparr>start = ''<!'', separator = ''.'', end' = ''!>''\<rparr>"
  let ?body = "replicate 1025 (CHR ''a'') @ ''!>''"
  let ?chunks = "[''<! '', replicate 1000 (CHR ''a''), replicate 25 (CHR ''a''), ''!>'']"
  have h1: "list_all is_space '' ''"
    by (simp add: is_space_def)
  have h2: "\<not> is_space (hd ?body)"
    by (simp add: is_space_def hd_append)
  have h3: "1024 < length ?body"
    by simp
  have h4: "unterminated ''!>'' (take 1025 ?body)"
    by (simp add: unterminated_without_last)
  have "replicate 1000 (CHR ''a'') @ replicate 25 (CHR ''a'') = replicate 1025 (CHR ''a'')"
    by (simp add: replicate_add [symmetric])
  then have h5: "concat ?chunks = [] @ start ?T @ '' '' @ ?body"
    by simp
  have a: "settled ?R ?T [] [] \<and> list_all is_space '' '' \<and> \<not> is_space (hd ?body) \<and>
    1024 < length ?body \<and> unterminated (end' ?T) (take 1025 ?body) \<and>
    concat ?chunks = [] @ start ?T @ '' '' @ ?body"
    using h1 h2 h3 h4 h5 by simp
  have g1: "unterminated ''!>'' (butlast ''a.b !>'')"
    by code_simp
  have g2: "endsWith ''a.b !>'' ''!>''"
    by (simp add: endsWith_def)
  have b: "settled ?R ?T [] [] \<and> list_all is_space '' '' \<and> ''a.b !>'' \<noteq> [] \<and>
    \<not> is_space (hd ''a.b !>'') \<and> length ''a.b !>'' \<le> 1024 \<and>
    unterminated (end' ?T) (butlast ''a.b !>'') \<and> endsWith ''a.b !>'' (end' ?T) \<and>
    concat [''<'', ''! a.b'', '' !>''] = [] @ start ?T @ '' '' @ ''a.b !>''"
    using h1 g1 g2 by (simp add: is_space_def)
  from directive_too_long [where R = ?R and T = ?T and D = "[]", THEN conjunct1, rule_format, OF a]
    directive_too_long [where R = ?R and T = ?T and D = "[]", THEN conjunct2, rule_format, OF b]
    h1 h3 h4 g1 g2
  show ?thesis
    by simp
qed

text \<open>
  C10. When the input ends, the run pushes nothing more and reports no error, and what the
  buffer holds is not part of the output. After a text with no occurrence of the start
  token the scanner holds a proper initial part of the start token, and the output is the
  text without it. After a start token, whitespace and a text that never ends with the end
  token (within the limit), the scanner holds that text in the state \<open>InDirective\<close>, and
  nothing of the directive is in the output. With the template \<open><! . !>\<close>, the input \<open>ab<\<close>
  gives \<open>ab\<close>, and \<open>ab <! color.red\<close> gives \<open>ab \<close>.
\<close>

theorem end_of_stream_discards_buffer:
  "(settled R T D pre \<and> \<not> sublist (start T) tail \<and> concat chunks = pre @ tail \<longrightarrow>
      (\<exists>held. snd (pipeline R T D chunks) =
           Inr \<lparr>nextState = LookingForDirective,
                context' = \<lparr>input = [], output' = [], stateBuffer = held\<rparr>\<rparr> \<and>
         strict_prefix held (start T) \<and>
         concat (fst (pipeline R T D chunks)) @ held = concat (fst (pipeline R T D [pre])) @ tail)) \<and>
   (settled R T D pre \<and> list_all is_space ws \<and> body \<noteq> [] \<and> \<not> is_space (hd body) \<and>
    length body \<le> 1024 \<and> unterminated (end' T) body \<and>
    concat chunks = pre @ start T @ ws @ body \<longrightarrow>
      snd (pipeline R T D chunks) =
        Inr \<lparr>nextState = InDirective,
             context' = \<lparr>input = [], output' = [], stateBuffer = body\<rparr>\<rparr> \<and>
      concat (fst (pipeline R T D chunks)) = concat (fst (pipeline R T D [pre]))) \<and>
   pipeline R \<lparr>start = ''<!'', separator = ''.'', end' = ''!>''\<rparr>
     [(''color'', Node [(''red'', Leaf ''#ff0000'')])] [''ab<''] =
     ([''ab''], Inr \<lparr>nextState = LookingForDirective,
                     context' = \<lparr>input = [], output' = [], stateBuffer = ''<''\<rparr>\<rparr>) \<and>
   pipeline R \<lparr>start = ''<!'', separator = ''.'', end' = ''!>''\<rparr>
     [(''color'', Node [(''red'', Leaf ''#ff0000'')])] [''ab <! color.red''] =
     ([''ab ''], Inr \<lparr>nextState = InDirective,
                      context' = \<lparr>input = [], output' = [], stateBuffer = ''color.red''\<rparr>\<rparr>)"
proof (intro conjI impI)
  assume a: "settled R T D pre \<and> \<not> sublist (start T) tail \<and> concat chunks = pre @ tail"
  then obtain flushed held where
    t: "transform R T D new_SwapTransform tail =
       Inr (\<lparr>nextState = LookingForDirective,
             context' = \<lparr>input = [], output' = [], stateBuffer = held\<rparr>\<rparr>, flushed)"
      "flushed @ held = tail" "strict_prefix held (start T)"
    using transform_plain [of T tail R D] by blast
  from a have "settled R T D pre" "concat chunks = pre @ tail"
    by simp_all
  from pipeline_settled [OF this] t
  show "\<exists>held. snd (pipeline R T D chunks) =
           Inr \<lparr>nextState = LookingForDirective,
                context' = \<lparr>input = [], output' = [], stateBuffer = held\<rparr>\<rparr> \<and>
         strict_prefix held (start T) \<and>
         concat (fst (pipeline R T D chunks)) @ held = concat (fst (pipeline R T D [pre])) @ tail"
    by auto
next
  assume a: "settled R T D pre \<and> list_all is_space ws \<and> body \<noteq> [] \<and> \<not> is_space (hd body) \<and>
    length body \<le> 1024 \<and> unterminated (end' T) body \<and>
    concat chunks = pre @ start T @ ws @ body"
  then have t: "transform R T D new_SwapTransform (start T @ ws @ body) =
     Inr (\<lparr>nextState = InDirective,
           context' = \<lparr>input = [], output' = [], stateBuffer = body\<rparr>\<rparr>, [])"
    by (intro transform_open) simp_all
  from a have "settled R T D pre" "concat chunks = pre @ (start T @ ws @ body)"
    by simp_all
  from pipeline_settled [OF this] t
  show "snd (pipeline R T D chunks) =
        Inr \<lparr>nextState = InDirective,
             context' = \<lparr>input = [], output' = [], stateBuffer = body\<rparr>\<rparr>"
    and "concat (fst (pipeline R T D chunks)) = concat (fst (pipeline R T D [pre]))"
    by simp_all
next
  show "pipeline R \<lparr>start = ''<!'', separator = ''.'', end' = ''!>''\<rparr>
     [(''color'', Node [(''red'', Leaf ''#ff0000'')])] [''ab<''] =
     ([''ab''], Inr \<lparr>nextState = LookingForDirective,
                     context' = \<lparr>input = [], output' = [], stateBuffer = ''<''\<rparr>\<rparr>)"
    by code_simp
next
  show "pipeline R \<lparr>start = ''<!'', separator = ''.'', end' = ''!>''\<rparr>
     [(''color'', Node [(''red'', Leaf ''#ff0000'')])] [''ab <! color.red''] =
     ([''ab ''], Inr \<lparr>nextState = InDirective,
                      context' = \<lparr>input = [], output' = [], stateBuffer = ''color.red''\<rparr>\<rparr>)"
    by code_simp
qed


theorem end_of_stream_discards_buffer_witness:
  "settled (\<lambda>names. Nullish) \<lparr>start = ''<!'', separator = ''.'', end' = ''!>''\<rparr>
     [(''color'', Node [(''red'', Leaf ''#ff0000'')])] ''<!color.red!> and '' \<and>
   \<not> sublist ''<!'' ''more <'' \<and>
   (\<exists>held. snd (pipeline (\<lambda>names. Nullish) \<lparr>start = ''<!'', separator = ''.'', end' = ''!>''\<rparr>
        [(''color'', Node [(''red'', Leaf ''#ff0000'')])] [''<!color.red!> an'', ''d more <'']) =
        Inr \<lparr>nextState = LookingForDirective,
             context' = \<lparr>input = [], output' = [], stateBuffer = held\<rparr>\<rparr> \<and>
      strict_prefix held ''<!'' \<and>
      concat (fst (pipeline (\<lambda>names. Nullish) \<lparr>start = ''<!'', separator = ''.'', end' = ''!>''\<rparr>
        [(''color'', Node [(''red'', Leaf ''#ff0000'')])] [''<!color.red!> an'', ''d more <''])) @
        held = ''#ff0000 and more <'') \<and>
   unterminated ''!>'' ''color.red'' \<and>
   pipeline (\<lambda>names. Nullish) \<lparr>start = ''<!'', separator = ''.'', end' = ''!>''\<rparr>
     [(''color'', Node [(''red'', Leaf ''#ff0000'')])] [''<! col'', ''or.red''] =
     ([[], []], Inr \<lparr>nextState = InDirective,
                    context' = \<lparr>input = [], output' = [], stateBuffer = ''color.red''\<rparr>\<rparr>)"
proof -
  let ?R = "\<lambda>names. Nullish :: read"
  let ?T = "\<lparr>start = ''<!'', separator = ''.'', end' = ''!>''\<rparr>"
  let ?D = "[(''color'', Node [(''red'', Leaf ''#ff0000'')])]"
  have h1: "settled ?R ?T ?D ''<!color.red!> and ''"
    by code_simp
  have h2: "\<not> sublist ''<!'' ''more <''"
    by code_simp
  have p: "concat (fst (pipeline ?R ?T ?D [''<!color.red!> and ''])) = ''#ff0000 and ''"
    by code_simp
  have a: "settled ?R ?T ?D ''<!color.red!> and '' \<and> \<not> sublist (start ?T) ''more <'' \<and>
    concat [''<!color.red!> an'', ''d more <''] = ''<!color.red!> and '' @ ''more <''"
    using h1 h2 by simp
  have g1: "unterminated ''!>'' ''color.red''"
    by code_simp
  have b: "settled ?R ?T ?D [] \<and> list_all is_space '' '' \<and> ''color.red'' \<noteq> [] \<and>
    \<not> is_space (hd ''color.red'') \<and> length ''color.red'' \<le> 1024 \<and>
    unterminated (end' ?T) ''color.red'' \<and>
    concat [''<! col'', ''or.red''] = [] @ start ?T @ '' '' @ ''color.red''"
    using g1 by (simp add: is_space_def)
  have v: "fst (pipeline ?R ?T ?D [''<! col'', ''or.red'']) = [[], []]"
    by code_simp
  from end_of_stream_discards_buffer
    [where R = ?R and T = ?T and D = ?D, THEN conjunct1, rule_format, OF a]
    end_of_stream_discards_buffer
    [where R = ?R and T = ?T and D = ?D, THEN conjunct2, THEN conjunct1, rule_format, OF b]
    h1 h2 p g1 v
  show ?thesis
    by (simp add: prod_eq_iff)
qed

text \<open>
  C7. A chunk on which \<open>_transform\<close> fails pushes nothing, whatever the chunks after it: also
  the text that the same object would have pushed for an initial part of the chunk is not
  pushed. A run that ends with an error has pushed one string for each chunk before the
  failing one and nothing from it on, and the error is \<open>DirectiveTooLong\<close> or one of the
  three errors of \<open>getValue\<close>.
\<close>

theorem error_ends_stream:
  "(transform R T D this chunk = Inl e \<longrightarrow> run R T D this (chunk # later) = ([], Inl e)) \<and>
   (transform R T D this a = Inr (this1, pushed) \<and> transform R T D this1 b = Inl e \<longrightarrow>
      transform R T D this (a @ b) = Inl e) \<and>
   (snd (run R T D this chunks) = Inl e \<longrightarrow>
      (\<exists>before chunk later this1.
         chunks = before @ chunk # later \<and>
         run R T D this before = (fst (run R T D this chunks), Inr this1) \<and>
         length (fst (run R T D this chunks)) = length before \<and>
         transform R T D this1 chunk = Inl e) \<and>
      (e = DirectiveTooLong \<or> (\<exists>p. e = IndexIntoLeaf p) \<or> (\<exists>k p. e = UnknownKey k p) \<or>
       (\<exists>p. e = NotALeaf p))) \<and>
   pipeline R \<lparr>start = ''<!'', separator = ''.'', end' = ''!>''\<rparr>
     [(''color'', Node [(''red'', Leaf ''#ff0000'')])]
     [''ok <!color.red!> '', ''abc <!color.blue!> def'', ''more''] =
     ([''ok #ff0000 ''], Inl (UnknownKey ''blue'' ''color.blue''))"
proof (intro conjI impI)
  assume "transform R T D this chunk = Inl e"
  then show "run R T D this (chunk # later) = ([], Inl e)"
    by simp
next
  assume "transform R T D this a = Inr (this1, pushed) \<and> transform R T D this1 b = Inl e"
  then show "transform R T D this (a @ b) = Inl e"
    by (simp add: transform_append)
next
  assume a: "snd (run R T D this chunks) = Inl e"
  from run_error [OF a] obtain before chunk later this1 where
    r: "chunks = before @ chunk # later"
      "run R T D this before = (fst (run R T D this chunks), Inr this1)"
      "transform R T D this1 chunk = Inl e"
    by blast
  from run_length [OF r(2)] r
  show "\<exists>before chunk later this1.
         chunks = before @ chunk # later \<and>
         run R T D this before = (fst (run R T D this chunks), Inr this1) \<and>
         length (fst (run R T D this chunks)) = length before \<and>
         transform R T D this1 chunk = Inl e"
    by blast
  from transform_errors [OF r(3)]
  show "e = DirectiveTooLong \<or> (\<exists>p. e = IndexIntoLeaf p) \<or> (\<exists>k p. e = UnknownKey k p) \<or>
       (\<exists>p. e = NotALeaf p)" .
next
  show "pipeline R \<lparr>start = ''<!'', separator = ''.'', end' = ''!>''\<rparr>
     [(''color'', Node [(''red'', Leaf ''#ff0000'')])]
     [''ok <!color.red!> '', ''abc <!color.blue!> def'', ''more''] =
     ([''ok #ff0000 ''], Inl (UnknownKey ''blue'' ''color.blue''))"
    by code_simp
qed

theorem error_ends_stream_witness:
  "transform (\<lambda>names. Nullish) \<lparr>start = ''<!'', separator = ''.'', end' = ''!>''\<rparr> [] new_SwapTransform ''abc '' =
     Inr (new_SwapTransform, ''abc '') \<and>
   transform (\<lambda>names. Nullish) \<lparr>start = ''<!'', separator = ''.'', end' = ''!>''\<rparr> [] new_SwapTransform
     ''<!x!> def'' = Inl (UnknownKey ''x'' ''x'') \<and>
   transform (\<lambda>names. Nullish) \<lparr>start = ''<!'', separator = ''.'', end' = ''!>''\<rparr> [] new_SwapTransform
     (''abc '' @ ''<!x!> def'') = Inl (UnknownKey ''x'' ''x'') \<and>
   run (\<lambda>names. Nullish) \<lparr>start = ''<!'', separator = ''.'', end' = ''!>''\<rparr> [] new_SwapTransform
     [''abc <!x!> def'', ''more''] = ([], Inl (UnknownKey ''x'' ''x''))"
proof -
  let ?R = "\<lambda>names. Nullish :: read"
  let ?T = "\<lparr>start = ''<!'', separator = ''.'', end' = ''!>''\<rparr>"
  have t1: "transform ?R ?T [] new_SwapTransform ''abc '' = Inr (new_SwapTransform, ''abc '')"
    by code_simp
  have t2: "transform ?R ?T [] new_SwapTransform ''<!x!> def'' = Inl (UnknownKey ''x'' ''x'')"
    by code_simp
  have t3: "transform ?R ?T [] new_SwapTransform (''abc '' @ ''<!x!> def'') =
      Inl (UnknownKey ''x'' ''x'')"
    using error_ends_stream
      [where R = ?R and T = ?T and D = "[]" and this = new_SwapTransform and a = "''abc ''"
         and ?this1.0 = new_SwapTransform and b = "''<!x!> def''" and pushed = "''abc ''"
         and e = "UnknownKey ''x'' ''x''",
       THEN conjunct2, THEN conjunct1, rule_format, OF conjI, OF t1 t2] .
  then have "transform ?R ?T [] new_SwapTransform ''abc <!x!> def'' = Inl (UnknownKey ''x'' ''x'')"
    by simp
  from error_ends_stream [where later = "[''more'']", THEN conjunct1, rule_format, OF this]
  have "run ?R ?T [] new_SwapTransform [''abc <!x!> def'', ''more''] =
      ([], Inl (UnknownKey ''x'' ''x''))" .
  with t1 t2 t3 show ?thesis
    by simp
qed

text \<open>
  C6. In the loop of \<open>_transform\<close>, for every state function and context: when the function
  called returns another function, the loop goes on with that function and an empty buffer;
  when it returns itself, the chunk is used up and the loop ends with the context as the
  function left it. The object after the chunk has the state function and the buffer with
  which the loop ended, and transforming the next chunk with this object gives what
  transforming the two chunks as one gives. After every sequence of chunks the buffer is
  one of the state function that runs next: an initial part of the start token for the
  scanner, empty for the whitespace consumer.
\<close>

theorem stateBuffer_reset_and_kept:
  "(input ctx \<noteq> [] \<and> call R T D s ctx = Inr (s', ctx') \<and> s' \<noteq> s \<longrightarrow>
      transform_loop R T D s ctx = transform_loop R T D s' (ctx'\<lparr>stateBuffer := []\<rparr>)) \<and>
   (input ctx \<noteq> [] \<and> call R T D s ctx = Inr (s, ctx') \<longrightarrow>
      input ctx' = [] \<and> transform_loop R T D s ctx = Inr (s, ctx')) \<and>
   (transform_loop R T D (nextState this) ((context' this)\<lparr>input := chunk\<rparr>) = Inr (s, ctx) \<longrightarrow>
      (\<exists>this1. transform R T D this chunk = Inr (this1, output' ctx) \<and> nextState this1 = s \<and>
         stateBuffer (context' this1) = stateBuffer ctx)) \<and>
   (transform R T D this a = Inr (this1, pushed) \<longrightarrow>
      transform R T D this (a @ b) =
        (case transform R T D this1 b of
           Inl e \<Rightarrow> Inl e
         | Inr (this2, pushed2) \<Rightarrow> Inr (this2, pushed @ pushed2))) \<and>
   (snd (pipeline R T D chunks) = Inr this' \<longrightarrow>
      fits T (nextState this') (stateBuffer (context' this')))"
proof (intro conjI impI)
  assume "input ctx \<noteq> [] \<and> call R T D s ctx = Inr (s', ctx') \<and> s' \<noteq> s"
  then show "transform_loop R T D s ctx = transform_loop R T D s' (ctx'\<lparr>stateBuffer := []\<rparr>)"
    by (simp add: transform_loop_step)
next
  assume a: "input ctx \<noteq> [] \<and> call R T D s ctx = Inr (s, ctx')"
  then show i: "input ctx' = []"
    by (auto dest: call_suspended)
  from a i show "transform_loop R T D s ctx = Inr (s, ctx')"
    by (simp add: transform_loop_step transform_loop_Nil)
next
  assume "transform_loop R T D (nextState this) ((context' this)\<lparr>input := chunk\<rparr>) = Inr (s, ctx)"
  then show "\<exists>this1. transform R T D this chunk = Inr (this1, output' ctx) \<and> nextState this1 = s \<and>
         stateBuffer (context' this1) = stateBuffer ctx"
    by (simp add: transform_def)
next
  assume "transform R T D this a = Inr (this1, pushed)"
  then show "transform R T D this (a @ b) =
        (case transform R T D this1 b of
           Inl e \<Rightarrow> Inl e
         | Inr (this2, pushed2) \<Rightarrow> Inr (this2, pushed @ pushed2))"
    by (simp add: transform_append)
next
  assume "snd (pipeline R T D chunks) = Inr this'"
  then show "fits T (nextState this') (stateBuffer (context' this'))"
    by (rule pipeline_fits)
qed

theorem stateBuffer_reset_and_kept_witness:
  "call (\<lambda>names. Nullish) \<lparr>start = ''<!'', separator = ''.'', end' = ''!>''\<rparr> [] LookingForDirective
     \<lparr>input = ''<! a'', output' = [], stateBuffer = []\<rparr> =
     Inr (WhitespaceConsumer InDirective, \<lparr>input = '' a'', output' = [], stateBuffer = ''<!''\<rparr>) \<and>
   transform_loop (\<lambda>names. Nullish) \<lparr>start = ''<!'', separator = ''.'', end' = ''!>''\<rparr> [] LookingForDirective
     \<lparr>input = ''<! a'', output' = [], stateBuffer = []\<rparr> =
     transform_loop (\<lambda>names. Nullish) \<lparr>start = ''<!'', separator = ''.'', end' = ''!>''\<rparr> []
       (WhitespaceConsumer InDirective) \<lparr>input = '' a'', output' = [], stateBuffer = []\<rparr> \<and>
   call (\<lambda>names. Nullish) \<lparr>start = ''<!'', separator = ''.'', end' = ''!>''\<rparr> [] InDirective
     \<lparr>input = ''.b'', output' = [], stateBuffer = ''a''\<rparr> =
     Inr (InDirective, \<lparr>input = [], output' = [], stateBuffer = ''a.b''\<rparr>) \<and>
   transform_loop (\<lambda>names. Nullish) \<lparr>start = ''<!'', separator = ''.'', end' = ''!>''\<rparr> [] InDirective
     \<lparr>input = ''.b'', output' = [], stateBuffer = ''a''\<rparr> =
     Inr (InDirective, \<lparr>input = [], output' = [], stateBuffer = ''a.b''\<rparr>) \<and>
   transform (\<lambda>names. Nullish) \<lparr>start = ''<!'', separator = ''.'', end' = ''!>''\<rparr> [(''a'', Leaf ''1'')]
     new_SwapTransform ''x<!'' =
     Inr (\<lparr>nextState = WhitespaceConsumer InDirective,
           context' = \<lparr>input = [], output' = [], stateBuffer = []\<rparr>\<rparr>, ''x'') \<and>
   transform (\<lambda>names. Nullish) \<lparr>start = ''<!'', separator = ''.'', end' = ''!>''\<rparr> [(''a'', Leaf ''1'')]
     new_SwapTransform (''x<!'' @ ''a!>'') = Inr (new_SwapTransform, ''x1'') \<and>
   snd (pipeline (\<lambda>names. Nullish) \<lparr>start = ''<!'', separator = ''.'', end' = ''!>''\<rparr> [(''a'', Leaf ''1'')]
     [''x'', ''<'']) =
     Inr \<lparr>nextState = LookingForDirective,
          context' = \<lparr>input = [], output' = [], stateBuffer = ''<''\<rparr>\<rparr> \<and>
   fits \<lparr>start = ''<!'', separator = ''.'', end' = ''!>''\<rparr> LookingForDirective ''<''"
proof -
  let ?R = "\<lambda>names. Nullish :: read"
  let ?T = "\<lparr>start = ''<!'', separator = ''.'', end' = ''!>''\<rparr>"
  let ?D = "[(''a'', Leaf ''1'')]"
  let ?c1 = "\<lparr>input = ''<! a'', output' = [], stateBuffer = []\<rparr>"
  let ?c1' = "\<lparr>input = '' a'', output' = [], stateBuffer = ''<!''\<rparr>"
  let ?c2 = "\<lparr>input = ''.b'', output' = [], stateBuffer = ''a''\<rparr>"
  let ?c2' = "\<lparr>input = [], output' = [], stateBuffer = ''a.b''\<rparr>"
  let ?this1 = "\<lparr>nextState = WhitespaceConsumer InDirective,
                 context' = \<lparr>input = [], output' = [], stateBuffer = []\<rparr>\<rparr>"
  have k1: "call ?R ?T [] LookingForDirective ?c1 = Inr (WhitespaceConsumer InDirective, ?c1')"
    by code_simp
  have k2: "call ?R ?T [] InDirective ?c2 = Inr (InDirective, ?c2')"
    by code_simp
  have k3: "transform ?R ?T ?D new_SwapTransform ''x<!'' = Inr (?this1, ''x'')"
    by code_simp
  have k4: "transform ?R ?T ?D ?this1 ''a!>'' = Inr (new_SwapTransform, ''1'')"
    by code_simp
  have k5: "snd (pipeline ?R ?T ?D [''x'', ''<'']) =
      Inr \<lparr>nextState = LookingForDirective,
           context' = \<lparr>input = [], output' = [], stateBuffer = ''<''\<rparr>\<rparr>"
    by code_simp
  have a1: "input ?c1 \<noteq> [] \<and>
      call ?R ?T [] LookingForDirective ?c1 = Inr (WhitespaceConsumer InDirective, ?c1') \<and>
      WhitespaceConsumer InDirective \<noteq> LookingForDirective"
    using k1 by simp
  have a2: "input ?c2 \<noteq> [] \<and> call ?R ?T [] InDirective ?c2 = Inr (InDirective, ?c2')"
    using k2 by simp
  from stateBuffer_reset_and_kept [where R = ?R and T = ?T and D = "[]", THEN conjunct1, rule_format, OF a1]
    stateBuffer_reset_and_kept
      [where R = ?R and T = ?T and D = "[]", THEN conjunct2, THEN conjunct1, rule_format, OF a2]
    stateBuffer_reset_and_kept
      [where b = "''a!>''", THEN conjunct2, THEN conjunct2, THEN conjunct2, THEN conjunct1,
        rule_format, OF k3]
    stateBuffer_reset_and_kept
      [THEN conjunct2, THEN conjunct2, THEN conjunct2, THEN conjunct2, rule_format, OF k5]
    k1 k2 k3 k4 k5
  show ?thesis
    by simp
qed

text \<open>
  C2. With the template \<open><! . !>\<close>, the text \<open>ab<\<close> contains no start token, and so no
  directive; its output is \<open>ab\<close>, in one chunk and in chunks of one character: the last
  character stays in the buffer and is never pushed.
\<close>

theorem trailing_start_prefix_lost:
  "\<not> sublist ''<!'' ''ab<'' \<and>
   pipeline R \<lparr>start = ''<!'', separator = ''.'', end' = ''!>''\<rparr>
     [(''color'', Node [(''red'', Leaf ''#ff0000'')])] [''ab<''] =
     ([''ab''], Inr \<lparr>nextState = LookingForDirective,
                     context' = \<lparr>input = [], output' = [], stateBuffer = ''<''\<rparr>\<rparr>) \<and>
   concat (fst (pipeline R \<lparr>start = ''<!'', separator = ''.'', end' = ''!>''\<rparr>
     [(''color'', Node [(''red'', Leaf ''#ff0000'')])] [''a'', ''b'', ''<''])) = ''ab''"
  by code_simp

text \<open>
  C4. With the template \<open><! . !>\<close>, the directive \<open><!color.red!>\<close> alone is replaced by its
  value; after one more \<open><\<close> it is not: in \<open><<!color.red!>\<close> the second \<open><\<close> breaks the match of
  the first and is flushed with it, so the start token that begins at the second \<open><\<close> is not
  seen and the text is passed through unchanged.
\<close>

theorem directive_after_false_start_missed:
  "pipeline R \<lparr>start = ''<!'', separator = ''.'', end' = ''!>''\<rparr>
     [(''color'', Node [(''red'', Leaf ''#ff0000'')])] [''<!color.red!>''] =
     ([''#ff0000''], Inr new_SwapTransform) \<and>
   pipeline R \<lparr>start = ''<!'', separator = ''.'', end' = ''!>''\<rparr>
     [(''color'', Node [(''red'', Leaf ''#ff0000'')])] [''<<!color.red!>''] =
     ([''<<!color.red!>''], Inr new_SwapTransform)"
  by code_simp

end
